theory Spec2Isabelle
  imports Main "HOL-Library.Word"
begin

unbundle bit_operations_syntax

section \<open>Basic types\<close>

text \<open>
  Go's \<open>uint32\<close>, \<open>uint16\<close>, \<open>uint8\<close> and \<open>int64\<close> are words: arithmetic wraps.
  A \<open>Sector\<close> is Go's \<open>[SectorSize]byte\<close>; it is a byte list here, and the fixed length
  that Go's type enforces is the predicate \<open>wf_device\<close> on a device's contents.
  Lengths and loop counters of Go's type \<open>int\<close> (64 bit, never overflowing on the values
  the code builds) are \<open>nat\<close> or \<open>int\<close>.
\<close>

type_synonym byte = "8 word"
type_synonym uint16 = "16 word"
type_synonym uint32 = "32 word"
type_synonym int64 = "64 word"
type_synonym Sector = "byte list"

definition SectorSize :: nat where
  "SectorSize = 512"

text \<open>The constant \<open>EOF\<close> of the chain file: \<open>const EOF = 0x0FFFFFF8\<close>.\<close>

definition EOF :: uint32 where
  "EOF = 0x0FFFFFF8"

text \<open>
  The error kinds of the library. The source builds its errors with \<open>errors.New\<close> and wraps
  them with \<open>essentials.AddCtx\<close>, which only prefixes the message; the kind is what is
  modelled. \<open>Panic\<close> is a Go run-time panic (index out of range, integer division by zero),
  which is not an \<open>error\<close> value of the source but ends the call all the same.
\<close>

datatype error =
    DeviceIO
  | NoFreeClusters
  | BeforeStart
  | UnknownWhence
  | NoClustersToRemove
  | IncorrectClusterSize
  | Panic

section \<open>The block device\<close>

text \<open>
  Modelled from the spec: the interface \<open>BlockDevice\<close> (methods \<open>NumSectors\<close>,
  \<open>ReadSector\<close>, \<open>WriteSector\<close>) is declared outside the given sources. The spec's
  contract: sectors are addressed by a 0-based 32-bit LBA, a read returns the sector or
  fails with an I/O error, a write stores the sector or fails with an I/O error, and both
  are atomic at sector granularity. The device is a store of sectors together with a
  schedule of faults: every call of \<open>ReadSector\<close> or \<open>WriteSector\<close> takes the next entry
  of the schedule and fails, leaving the store as it is, when the entry is \<open>True\<close>. An
  exhausted schedule means no further fault. Every finite run of a device that fails
  some of its calls is a run of this model under some schedule. \<open>ReadSector\<close> hands out
  a copy of the sector.
\<close>

record BlockDevice =
  NumSectors :: uint32
  store :: "uint32 \<Rightarrow> Sector"
  faults :: "bool list"

definition next_fault :: "BlockDevice \<Rightarrow> bool \<times> BlockDevice" where
  "next_fault d =
     (case faults d of
        [] \<Rightarrow> (False, d)
      | b # bs \<Rightarrow> (b, d\<lparr>faults := bs\<rparr>))"

definition ReadSector :: "BlockDevice \<Rightarrow> uint32 \<Rightarrow> (error + Sector) \<times> BlockDevice" where
  "ReadSector d lba =
     (case next_fault d of
        (True, d') \<Rightarrow> (Inl DeviceIO, d')
      | (False, d') \<Rightarrow> (Inr (store d' lba), d'))"

definition WriteSector :: "BlockDevice \<Rightarrow> uint32 \<Rightarrow> Sector \<Rightarrow> (error + unit) \<times> BlockDevice" where
  "WriteSector d lba s =
     (case next_fault d of
        (True, d') \<Rightarrow> (Inl DeviceIO, d')
      | (False, d') \<Rightarrow> (Inr (), d'\<lparr>store := (store d')(lba := s)\<rparr>))"

text \<open>Go's array type fixes the length of every sector.\<close>

definition wf_device :: "BlockDevice \<Rightarrow> bool" where
  "wf_device d = (\<forall>lba. length (store d lba) = SectorSize)"

section \<open>Little-endian loads and stores\<close>

text \<open>
  Modelled from the spec: the variable \<open>Endian\<close> is declared outside the given sources; the
  spec calls it the little-endian 16/32-bit load/store on byte slices. The source slices
  the block, \<open>block[byteIdx:byteIdx+4]\<close>, and the store writes through the slice into the
  block, so both functions take the block and the offset of the slice.
\<close>

definition Uint32 :: "byte list \<Rightarrow> nat \<Rightarrow> uint32" where
  "Uint32 b i =
     ucast (b ! i) OR push_bit 8 (ucast (b ! (i + 1)))
       OR push_bit 16 (ucast (b ! (i + 2))) OR push_bit 24 (ucast (b ! (i + 3)))"

definition Uint16 :: "byte list \<Rightarrow> nat \<Rightarrow> uint16" where
  "Uint16 b i = ucast (b ! i) OR push_bit 8 (ucast (b ! (i + 1)))"

definition PutUint32 :: "byte list \<Rightarrow> nat \<Rightarrow> uint32 \<Rightarrow> byte list" where
  "PutUint32 b i v =
     b[i := ucast v, i + 1 := ucast (drop_bit 8 v),
       i + 2 := ucast (drop_bit 16 v), i + 3 := ucast (drop_bit 24 v)]"

section \<open>The boot sector\<close>

text \<open>
  Modelled from the spec: the type \<open>BootSector\<close> (a sector with accessor methods) is
  declared outside the given sources. The accessors read the fields at the byte offsets of
  the spec's table of the BPB, little-endian.
\<close>

definition SecPerClus :: "Sector \<Rightarrow> byte" where
  "SecPerClus bs = bs ! 13"

definition RsvdSecCnt :: "Sector \<Rightarrow> uint16" where
  "RsvdSecCnt bs = Uint16 bs 14"

definition NumFATs :: "Sector \<Rightarrow> byte" where
  "NumFATs bs = bs ! 16"

definition TotSec32 :: "Sector \<Rightarrow> uint32" where
  "TotSec32 bs = Uint32 bs 32"

definition FatSz32 :: "Sector \<Rightarrow> uint32" where
  "FatSz32 bs = Uint32 bs 36"

definition RootClus :: "Sector \<Rightarrow> uint32" where
  "RootClus bs = Uint32 bs 44"

section \<open>FS: the FAT manager\<close>

record FS =
  Device :: BlockDevice
  BootSector :: Sector
  fatSectors :: "uint32 list"

text \<open>The loop of \<open>NewFS\<close>: one offset per FAT copy, \<open>offset += bs.FatSz32()\<close> wrapping.\<close>

fun fat_offsets :: "nat \<Rightarrow> uint32 \<Rightarrow> uint32 \<Rightarrow> uint32 list" where
  "fat_offsets 0 offset sz = []"
| "fat_offsets (Suc n) offset sz = offset # fat_offsets n (offset + sz) sz"


definition ClusterSize :: "FS \<Rightarrow> nat" where
  "ClusterSize f = unat (SecPerClus (BootSector f)) * SectorSize"

text \<open>\<open>NumClusters\<close>: unsigned 32-bit arithmetic; Go panics on the division by zero.\<close>

definition NumClusters :: "FS \<Rightarrow> error + uint32" where
  "NumClusters f =
     (let b = BootSector f;
          numSectors = TotSec32 b - (FatSz32 b * ucast (NumFATs b) + ucast (RsvdSecCnt b))
      in if SecPerClus b = 0 then Inl Panic
         else Inr (2 + numSectors div ucast (SecPerClus b)))"

definition fatIndices :: "uint32 \<Rightarrow> uint32 \<times> nat" where
  "fatIndices dataIndex = (dataIndex div 128, unat (dataIndex mod 128) * 4)"

text \<open>
  \<open>ReadFAT\<close> indexes \<open>f.fatSectors[0]\<close>: with no FAT copy the index is out of range and Go
  panics. The file system is returned with the device as the call left it.
\<close>

definition ReadFAT :: "FS \<Rightarrow> uint32 \<Rightarrow> (error + uint32) \<times> FS" where
  "ReadFAT f dataIndex =
     (case fatIndices dataIndex of (sector, byteIdx) \<Rightarrow>
        (case fatSectors f of
           [] \<Rightarrow> (Inl Panic, f)
         | fat0 # _ \<Rightarrow>
             (case ReadSector (Device f) (fat0 + sector) of
                (Inl e, d) \<Rightarrow> (Inl e, f\<lparr>Device := d\<rparr>)
              | (Inr block, d) \<Rightarrow>
                  (Inr (Uint32 block byteIdx AND 0x0fffffff), f\<lparr>Device := d\<rparr>))))"

text \<open>The body of the loop of \<open>WriteFAT\<close> over \<open>f.fatSectors\<close>, copy by copy, in order.\<close>

fun WriteFAT_loop ::
  "BlockDevice \<Rightarrow> uint32 \<Rightarrow> nat \<Rightarrow> uint32 \<Rightarrow> uint32 list \<Rightarrow> (error + unit) \<times> BlockDevice" where
  "WriteFAT_loop d sector byteIdx contents [] = (Inr (), d)"
| "WriteFAT_loop d sector byteIdx contents (sectorOffset # rest) =
     (case ReadSector d (sector + sectorOffset) of
        (Inl e, d1) \<Rightarrow> (Inl e, d1)
      | (Inr block, d1) \<Rightarrow>
          (let oldContents = Uint32 block byteIdx;
               newContents = (contents AND 0x0fffffff) OR (oldContents AND 0xf0000000);
               block' = PutUint32 block byteIdx newContents
           in case WriteSector d1 (sector + sectorOffset) block' of
                (Inl e, d2) \<Rightarrow> (Inl e, d2)
              | (Inr _, d2) \<Rightarrow> WriteFAT_loop d2 sector byteIdx contents rest))"

definition WriteFAT :: "FS \<Rightarrow> uint32 \<Rightarrow> uint32 \<Rightarrow> (error + unit) \<times> FS" where
  "WriteFAT f dataIndex contents =
     (case fatIndices dataIndex of (sector, byteIdx) \<Rightarrow>
        (case WriteFAT_loop (Device f) sector byteIdx contents (fatSectors f) of
           (r, d) \<Rightarrow> (r, f\<lparr>Device := d\<rparr>)))"

text \<open>
  \<open>Alloc\<close>: the inner loop over the 128 entries of one FAT sector. \<open>None\<close> is the loop
  running to its end; \<open>Some\<close> is a \<open>return\<close> from inside it. The counters are Go's
  \<open>uint32 i\<close> (below \<open>FatSz32\<close>) and \<open>int j\<close> (below 128); the cluster index is computed
  in 32 bits, as \<open>uint32(j) + i*128\<close>. \<open>NumClusters\<close> is only reached for an index of at
  least 2 (Go's \<open>||\<close> short-circuits). On a failed \<open>WriteFAT\<close> the source returns the index
  together with the error; the model keeps the error.
\<close>

function Alloc_sector :: "FS \<Rightarrow> Sector \<Rightarrow> nat \<Rightarrow> nat \<Rightarrow> ((error + uint32) \<times> FS) option" where
  "Alloc_sector f block i j =
     (if j < 128 then
        (let clusterIdx = (of_nat j :: uint32) + of_nat i * 128 in
         if clusterIdx < 2 then Alloc_sector f block i (j + 1)
         else
           (case NumClusters f of
              Inl e \<Rightarrow> Some (Inl e, f)
            | Inr n \<Rightarrow>
                if clusterIdx \<ge> n then Alloc_sector f block i (j + 1)
                else
                  (let contents = Uint32 block (j * 4) AND 0x0fffffff in
                   if contents = 0 then
                     Some (case WriteFAT f clusterIdx EOF of
                             (Inl e, f') \<Rightarrow> (Inl e, f')
                           | (Inr _, f') \<Rightarrow> (Inr clusterIdx, f'))
                   else Alloc_sector f block i (j + 1))))
      else None)"
  by pat_completeness auto
termination
  by (relation "measure (\<lambda>(f, block, i, j). 128 - j)") auto

declare Alloc_sector.simps [simp del]

function Alloc_loop :: "FS \<Rightarrow> nat \<Rightarrow> (error + uint32) \<times> FS" where
  "Alloc_loop f i =
     (if i < unat (FatSz32 (BootSector f)) then
        (case fatSectors f of
           [] \<Rightarrow> (Inl Panic, f)
         | fat0 # _ \<Rightarrow>
             (case ReadSector (Device f) (of_nat i + fat0) of
                (Inl e, d) \<Rightarrow> (Inl e, f\<lparr>Device := d\<rparr>)
              | (Inr block, d) \<Rightarrow>
                  (case Alloc_sector (f\<lparr>Device := d\<rparr>) block i 0 of
                     Some r \<Rightarrow> r
                   | None \<Rightarrow> Alloc_loop (f\<lparr>Device := d\<rparr>) (i + 1))))
      else (Inl NoFreeClusters, f))"
  by pat_completeness auto
termination
  by (relation "measure (\<lambda>(f, i). unat (FatSz32 (BootSector f)) - i)") auto

declare Alloc_loop.simps [simp del]

definition Alloc :: "FS \<Rightarrow> (error + uint32) \<times> FS" where
  "Alloc f = Alloc_loop f 0"







section \<open>Chain: the cursor over a cluster chain\<close>

record Chain =
  fs :: FS
  cluster :: uint32
  prev :: "uint32 list"

definition NewChain :: "FS \<Rightarrow> uint32 \<Rightarrow> Chain" where
  "NewChain f start = \<lparr>fs = f, cluster = start, prev = []\<rparr>"

definition RootDirChain :: "FS \<Rightarrow> Chain" where
  "RootDirChain f = NewChain f (RootClus (BootSector f))"

definition FirstCluster :: "Chain \<Rightarrow> uint32" where
  "FirstCluster c = (if length (prev c) > 0 then prev c ! 0 else cluster c)"

definition clusterSector :: "Chain \<Rightarrow> uint32" where
  "clusterSector c =
     (let b = BootSector (fs c);
          firstData = ucast (RsvdSecCnt b) + ucast (NumFATs b) * FatSz32 b
      in firstData + (cluster c - 2) * ucast (SecPerClus b))"

text \<open>The loop of \<open>ReadCluster\<close>: sector by sector, appended to \<open>res\<close>.\<close>

function ReadCluster_loop :: "FS \<Rightarrow> uint32 \<Rightarrow> byte list \<Rightarrow> nat \<Rightarrow> (error + byte list) \<times> FS" where
  "ReadCluster_loop f offset res i =
     (if i < unat (SecPerClus (BootSector f)) then
        (case ReadSector (Device f) (offset + of_nat i) of
           (Inl e, d) \<Rightarrow> (Inl e, f\<lparr>Device := d\<rparr>)
         | (Inr sector, d) \<Rightarrow> ReadCluster_loop (f\<lparr>Device := d\<rparr>) offset (res @ sector) (i + 1))
      else (Inr res, f))"
  by pat_completeness auto
termination
  by (relation "measure (\<lambda>(f, offset, res, i). unat (SecPerClus (BootSector f)) - i)") auto

declare ReadCluster_loop.simps [simp del]

definition ReadCluster :: "Chain \<Rightarrow> (error + byte list) \<times> Chain" where
  "ReadCluster c =
     (case ReadCluster_loop (fs c) (clusterSector c) [] 0 of
        (r, f) \<Rightarrow> (r, c\<lparr>fs := f\<rparr>))"

text \<open>
  Go's builtin \<open>copy(dst, src)\<close> overwrites the first \<open>min (len dst) (len src)\<close> bytes of
  \<open>dst\<close>. In \<open>WriteCluster\<close> the variable \<open>chunk\<close> lives across the iterations; the slice
  \<open>data[i*SectorSize:]\<close> is in range because of the length check before the loop.
\<close>

definition copy_bytes :: "byte list \<Rightarrow> byte list \<Rightarrow> byte list" where
  "copy_bytes dst src = take (length dst) src @ drop (length src) dst"

function WriteCluster_loop ::
  "FS \<Rightarrow> uint32 \<Rightarrow> byte list \<Rightarrow> Sector \<Rightarrow> nat \<Rightarrow> (error + unit) \<times> FS" where
  "WriteCluster_loop f offset data chunk i =
     (if i < unat (SecPerClus (BootSector f)) then
        (let chunk' = copy_bytes chunk (drop (i * SectorSize) data) in
         case WriteSector (Device f) (offset + of_nat i) chunk' of
           (Inl e, d) \<Rightarrow> (Inl e, f\<lparr>Device := d\<rparr>)
         | (Inr _, d) \<Rightarrow> WriteCluster_loop (f\<lparr>Device := d\<rparr>) offset data chunk' (i + 1))
      else (Inr (), f))"
  by pat_completeness auto
termination
  by (relation "measure (\<lambda>(f, offset, data, chunk, i). unat (SecPerClus (BootSector f)) - i)") auto

declare WriteCluster_loop.simps [simp del]

definition WriteCluster :: "Chain \<Rightarrow> byte list \<Rightarrow> (error + unit) \<times> Chain" where
  "WriteCluster c data =
     (if length data \<noteq> ClusterSize (fs c) then (Inl IncorrectClusterSize, c)
      else
        (case WriteCluster_loop (fs c) (clusterSector c) data (replicate SectorSize 0) 0 of
           (r, f) \<Rightarrow> (r, c\<lparr>fs := f\<rparr>)))"

text \<open>The constants \<open>io.SeekStart\<close>, \<open>io.SeekCurrent\<close> and \<open>io.SeekEnd\<close> of Go's library.\<close>

definition SeekStart :: int where
  "SeekStart = 0"

definition SeekCurrent :: int where
  "SeekCurrent = 1"

definition SeekEnd :: int where
  "SeekEnd = 2"

text \<open>
  The forward loop of \<open>Seek\<close>, \<open>for i := int64(0); i < offset; i++\<close>; the argument is the
  number of iterations left.
\<close>

fun Seek_forward :: "Chain \<Rightarrow> nat \<Rightarrow> (error + int) \<times> Chain" where
  "Seek_forward c 0 = (Inr (int (length (prev c))), c)"
| "Seek_forward c (Suc n) =
     (case ReadFAT (fs c) (cluster c) of
        (Inl e, f) \<Rightarrow> (Inl e, c\<lparr>fs := f\<rparr>)
      | (Inr next, f) \<Rightarrow>
          if next \<ge> EOF then (Inr (int (length (prev c))), c\<lparr>fs := f\<rparr>)
          else Seek_forward (c\<lparr>fs := f, prev := prev c @ [cluster c], cluster := next\<rparr>) n)"

text \<open>
  \<open>Seek\<close>. The offset is an \<open>int64\<close>: \<open>sint\<close> reads it, and \<open>-offset\<close> wraps at the least
  value. \<open>int64(len(c.prev))\<close> is the length itself. An index expression \<open>c.prev[k]\<close> with
  \<open>k\<close> negative is a Go run-time panic; the slice \<open>c.prev[:k]\<close> after it is never reached
  then. The returned position is an integer.
\<close>

function Seek :: "Chain \<Rightarrow> int64 \<Rightarrow> int \<Rightarrow> (error + int) \<times> Chain" where
  "Seek c offset whence =
     (if whence = SeekStart then
        (if int (length (prev c)) > sint offset then
           (if sint offset < 0 then (Inl Panic, c)
            else (Inr (sint offset),
                  c\<lparr>cluster := prev c ! nat (sint offset),
                    prev := take (nat (sint offset)) (prev c)\<rparr>))
         else if int (length (prev c)) = sint offset then (Inr (sint offset), c)
         else Seek c (offset - of_nat (length (prev c))) SeekCurrent)
      else if whence = SeekCurrent then
        (if sint offset < 0 then
           (if sint (- offset) > int (length (prev c)) then (Inl BeforeStart, c)
            else
              (let newPrevLen = int (length (prev c)) + sint offset in
               if newPrevLen < 0 then (Inl Panic, c)
               else
                 (let c' = c\<lparr>cluster := prev c ! nat newPrevLen,
                             prev := take (nat newPrevLen) (prev c)\<rparr>
                  in (Inr (int (length (prev c'))), c'))))
         else Seek_forward c (nat (sint offset)))
      else if whence = SeekEnd then
        (case Seek c 0x100000000 SeekCurrent of
           (Inl e, c1) \<Rightarrow> (Inl e, c1)
         | (Inr _, c1) \<Rightarrow> Seek c1 offset SeekCurrent)
      else (Inl UnknownWhence, c))"
  by pat_completeness auto
termination
  by (relation "measure (\<lambda>(c, offset, whence). if whence = SeekCurrent then 0 else 1)")
     (auto simp: SeekStart_def SeekCurrent_def SeekEnd_def)

declare Seek.simps [simp del]

text \<open>\<open>Extend\<close>: on a failed link the source writes 0 to the new entry and drops that result.\<close>

definition Extend :: "Chain \<Rightarrow> (error + unit) \<times> Chain" where
  "Extend c =
     (case Seek c 0 SeekEnd of
        (Inl e, c1) \<Rightarrow> (Inl e, c1)
      | (Inr _, c1) \<Rightarrow>
          (case Alloc (fs c1) of
             (Inl e, f2) \<Rightarrow> (Inl e, c1\<lparr>fs := f2\<rparr>)
           | (Inr new, f2) \<Rightarrow>
               (case WriteFAT f2 (cluster c1) new of
                  (Inl e, f3) \<Rightarrow> (Inl e, c1\<lparr>fs := snd (WriteFAT f3 new 0)\<rparr>)
                | (Inr _, f3) \<Rightarrow>
                    (Inr (), c1\<lparr>fs := f3, prev := prev c1 @ [cluster c1], cluster := new\<rparr>))))"

definition Truncate :: "Chain \<Rightarrow> (error + unit) \<times> Chain" where
  "Truncate c =
     (case Seek c 0 SeekEnd of
        (Inl e, c1) \<Rightarrow> (Inl e, c1)
      | (Inr _, c1) \<Rightarrow>
          if length (prev c1) = 0 then (Inl NoClustersToRemove, c1)
          else
            (let previous = prev c1 ! (length (prev c1) - 1) in
             case WriteFAT (fs c1) previous EOF of
               (Inl e, f2) \<Rightarrow> (Inl e, c1\<lparr>fs := f2\<rparr>)
             | (Inr _, f2) \<Rightarrow>
                 (case WriteFAT f2 (cluster c1) 0 of
                    (Inl e, f3) \<Rightarrow> (Inl e, c1\<lparr>fs := f3\<rparr>)
                  | (Inr _, f3) \<Rightarrow>
                      (Inr (), c1\<lparr>fs := f3, prev := take (length (prev c1) - 1) (prev c1),
                                 cluster := previous\<rparr>))))"

text \<open>
  The loop of \<open>Free\<close>, \<open>for c.cluster < EOF\<close>, need not end (a FAT whose entry 0 is 0 sends
  it round cluster 0 for ever): \<open>None\<close> is the call that does not return.
\<close>

partial_function (option) Free_loop :: "Chain \<Rightarrow> ((error + unit) \<times> Chain) option" where
  "Free_loop c =
     (if cluster c < EOF then
        (case ReadFAT (fs c) (cluster c) of
           (Inl e, f1) \<Rightarrow> Some (Inl e, c\<lparr>fs := f1\<rparr>)
         | (Inr next, f1) \<Rightarrow>
             (case WriteFAT f1 (cluster c) 0 of
                (Inl e, f2) \<Rightarrow> Some (Inl e, c\<lparr>fs := f2\<rparr>)
              | (Inr _, f2) \<Rightarrow> Free_loop (c\<lparr>fs := f2, cluster := next\<rparr>)))
      else Some (Inr (), c))"

definition Free :: "Chain \<Rightarrow> ((error + unit) \<times> Chain) option" where
  "Free c =
     (case Seek c 0 SeekStart of
        (Inl e, c1) \<Rightarrow> Some (Inl e, c1)
      | (Inr _, c1) \<Rightarrow> Free_loop c1)"

text \<open>
  The reader of \<open>ReadFrom\<close> is a reader over a byte sequence: its state is the bytes not
  yet read. \<open>io.ReadFull\<close> of Go's library fills the buffer, reports \<open>io.EOF\<close> when no byte
  was read, \<open>io.ErrUnexpectedEOF\<close> when the bytes ran out before the buffer was full, and
  returns at once, without an error, for a buffer of length 0. The result is the count, the
  status, the buffer and the reader after the call.
\<close>

datatype read_status = ReadNil | ReadEOF | ReadUnexpectedEOF

definition ReadFull :: "byte list \<Rightarrow> byte list \<Rightarrow> nat \<times> read_status \<times> byte list \<times> byte list" where
  "ReadFull r buffer =
     (if length buffer = 0 then (0, ReadNil, buffer, r)
      else if r = [] then (0, ReadEOF, buffer, r)
      else if length r < length buffer
        then (length r, ReadUnexpectedEOF, r @ drop (length r) buffer, [])
      else (length buffer, ReadNil, take (length buffer) r, drop (length buffer) r))"

text \<open>
  \<open>ReadFrom\<close> returns the count together with the error, if any. Its loop \<open>for { ... }\<close>
  ends when the reader does; \<open>None\<close> is the call that does not return. A reader over a byte
  sequence has no error but the two ends of input, so the last branch of the source
  (\<open>readErr != nil\<close>) is not taken.
\<close>

partial_function (option) ReadFrom_loop ::
  "Chain \<Rightarrow> byte list \<Rightarrow> int \<Rightarrow> bool \<Rightarrow> ((int \<times> error option) \<times> Chain) option" where
  "ReadFrom_loop c r n needsExtend =
     (case ReadFull r (replicate (ClusterSize (fs c)) 0) of
        (m, readErr, buffer, r') \<Rightarrow>
          if readErr = ReadEOF then Some ((n + int m, None), c)
          else
            (case (if needsExtend then Extend c else (Inr (), c)) of
               (Inl e, c1) \<Rightarrow> Some ((n + int m, Some e), c1)
             | (Inr _, c1) \<Rightarrow>
                 (case WriteCluster c1 buffer of
                    (Inl e, c2) \<Rightarrow> Some ((n + int m, Some e), c2)
                  | (Inr _, c2) \<Rightarrow>
                      if readErr = ReadUnexpectedEOF then Some ((n + int m, None), c2)
                      else ReadFrom_loop c2 r' (n + int m) True)))"

definition ReadFrom :: "Chain \<Rightarrow> byte list \<Rightarrow> ((int \<times> error option) \<times> Chain) option" where
  "ReadFrom c r =
     (case Seek c 0 SeekEnd of
        (Inl e, c1) \<Rightarrow> Some ((0, Some e), c1)
      | (Inr _, c1) \<Rightarrow> ReadFrom_loop c1 r 0 False)"

text \<open>
  The writer of \<open>WriteTo\<close> is a buffer that appends what it is given and never fails: its
  state is the bytes written so far. The loop ends at the first \<open>Seek\<close> that does not move;
  \<open>None\<close> is the call that does not return.
\<close>

partial_function (option) WriteTo_loop ::
  "Chain \<Rightarrow> byte list \<Rightarrow> int \<Rightarrow> int \<Rightarrow> ((int \<times> error option) \<times> Chain \<times> byte list) option" where
  "WriteTo_loop c w n offset =
     (case ReadCluster c of
        (Inl e, c1) \<Rightarrow> Some ((n, Some e), c1, w)
      | (Inr data, c1) \<Rightarrow>
          (case Seek c1 1 SeekCurrent of
             (Inl e, c2) \<Rightarrow> Some ((n + int (length data), Some e), c2, w @ data)
           | (Inr newOffset, c2) \<Rightarrow>
               if newOffset = offset then Some ((n + int (length data), None), c2, w @ data)
               else WriteTo_loop c2 (w @ data) (n + int (length data)) (offset + 1)))"

definition WriteTo :: "Chain \<Rightarrow> byte list \<Rightarrow> ((int \<times> error option) \<times> Chain \<times> byte list) option" where
  "WriteTo c w =
     (case Seek c 0 SeekStart of
        (Inl e, c1) \<Rightarrow> Some ((0, Some e), c1, w)
      | (Inr _, c1) \<Rightarrow> WriteTo_loop c1 w 0 0)"

section \<open>Notions used in the statements\<close>

text \<open>The next call of the device does not fail.\<close>

definition next_ok :: "BlockDevice \<Rightarrow> bool" where
  "next_ok d = (case faults d of [] \<Rightarrow> True | b # _ \<Rightarrow> \<not> b)"

text \<open>What one round of the loop of \<open>WriteFAT\<close> does to a block, and to the store.\<close>

definition fat_patch :: "Sector \<Rightarrow> nat \<Rightarrow> uint32 \<Rightarrow> Sector" where
  "fat_patch block byteIdx contents =
     PutUint32 block byteIdx ((contents AND 0x0fffffff) OR (Uint32 block byteIdx AND 0xf0000000))"

definition patch_store ::
  "uint32 \<Rightarrow> nat \<Rightarrow> uint32 \<Rightarrow> uint32 \<Rightarrow> (uint32 \<Rightarrow> Sector) \<Rightarrow> (uint32 \<Rightarrow> Sector)" where
  "patch_store s bi v off st = st(s + off := fat_patch (st (s + off)) bi v)"

text \<open>
  A concrete volume for the closed instances: 2048 sectors of 512 bytes, one sector per
  cluster, 32 reserved sectors, two FAT copies of 16 sectors each, root cluster 2; every
  sector of the device is zero.
\<close>

definition example_bs :: Sector where
  "example_bs =
     replicate 11 0 @ [0, 2, 1, 32, 0, 2] @ replicate 15 0 @ [0, 8, 0, 0, 16, 0, 0, 0]
       @ replicate 4 0 @ [2, 0, 0, 0] @ replicate 462 0 @ [0x55, 0xAA]"

definition blank_device :: BlockDevice where
  "blank_device = \<lparr>NumSectors = 2048, store = (\<lambda>_. replicate 512 0), faults = []\<rparr>"

definition blank_fs :: FS where
  "blank_fs = \<lparr>Device = blank_device, BootSector = example_bs, fatSectors = [32, 48]\<rparr>"

text \<open>
  The FAT copies are where \<open>NewFS\<close> puts them, and the reserved area and the copies lie
  within the volume, so that no sector number of the FAT region wraps.
\<close>

definition wf_fat :: "FS \<Rightarrow> bool" where
  "wf_fat f =
     (let b = BootSector f in
        fatSectors f = fat_offsets (unat (NumFATs b)) (ucast (RsvdSecCnt b)) (FatSz32 b)
        \<and> unat (RsvdSecCnt b) + unat (NumFATs b) * unat (FatSz32 b) \<le> unat (TotSec32 b))"

text \<open>The 32-bit word of entry \<open>k\<close> on the disk, in the FAT copy that starts at sector \<open>off\<close>.\<close>

definition fat_raw :: "(uint32 \<Rightarrow> Sector) \<Rightarrow> uint32 \<Rightarrow> uint32 \<Rightarrow> uint32" where
  "fat_raw st off k = Uint32 (st (fst (fatIndices k) + off)) (snd (fatIndices k))"

text \<open>Every FAT copy is, sector by sector, the first one.\<close>

definition mirrors_identical :: "FS \<Rightarrow> bool" where
  "mirrors_identical f =
     (\<forall>off \<in> set (fatSectors f). \<forall>t. t < FatSz32 (BootSector f) \<longrightarrow>
        store (Device f) (t + off) = store (Device f) (t + hd (fatSectors f)))"

text \<open>
  The link of entry \<open>k\<close>: what \<open>ReadFAT\<close> returns for \<open>k\<close> on the device when the read does
  not fail.
\<close>

definition no_faults :: "FS \<Rightarrow> FS" where
  "no_faults f = f\<lparr>Device := (Device f)\<lparr>faults := []\<rparr>\<rparr>"

definition fat_entry :: "FS \<Rightarrow> uint32 \<Rightarrow> error + uint32" where
  "fat_entry f k = fst (ReadFAT (no_faults f) k)"

text \<open>Following the links of the FAT from a cluster, for a number of steps.\<close>

fun follow_links :: "FS \<Rightarrow> uint32 \<Rightarrow> nat \<Rightarrow> uint32 option" where
  "follow_links f s 0 = Some s"
| "follow_links f s (Suc n) =
     (case fat_entry f s of
        Inl e \<Rightarrow> None
      | Inr next \<Rightarrow> follow_links f next n)"

text \<open>Every cluster of the list is linked to the one after it.\<close>

fun linked :: "FS \<Rightarrow> uint32 list \<Rightarrow> bool" where
  "linked f [] = True"
| "linked f [x] = True"
| "linked f (x # y # r) = (fat_entry f x = Inr y \<and> linked f (y # r))"

text \<open>A sequence of calls of \<open>Seek\<close>, each with its offset and whence, all without error.\<close>

fun Seeks :: "Chain \<Rightarrow> (int64 \<times> int) list \<Rightarrow> error + Chain" where
  "Seeks c [] = Inr c"
| "Seeks c ((offset, whence) # ops) =
     (case Seek c offset whence of
        (Inl e, c') \<Rightarrow> Inl e
      | (Inr p, c') \<Rightarrow> Seeks c' ops)"

text \<open>A chain of two clusters on the example volume: 2 is linked to 3, and 3 ends it.\<close>

definition chain_fs :: FS where
  "chain_fs = snd (WriteFAT (snd (WriteFAT blank_fs 2 3)) 3 EOF)"

text \<open>
  A free slot of the scan of \<open>Alloc\<close>: a cluster index of at least 2, below \<open>NumClusters\<close>
  and among the \<open>FatSz32 * 128\<close> entries of the FAT, whose link is 0.
\<close>

definition free_slot :: "FS \<Rightarrow> uint32 \<Rightarrow> bool" where
  "free_slot f c =
     (2 \<le> c \<and> (case NumClusters f of Inl e \<Rightarrow> False | Inr n \<Rightarrow> c < n)
      \<and> unat c < unat (FatSz32 (BootSector f)) * 128 \<and> fat_entry f c = Inr 0)"

text \<open>A free cluster: an index of at least 2, below \<open>NumClusters\<close>, whose link is 0.\<close>

definition free_cluster :: "FS \<Rightarrow> uint32 \<Rightarrow> bool" where
  "free_cluster f c =
     (2 \<le> c \<and> (case NumClusters f of Inl e \<Rightarrow> False | Inr n \<Rightarrow> c < n)
      \<and> fat_entry f c = Inr 0)"

text \<open>What \<open>Alloc\<close> does with the slot it has found.\<close>

definition Alloc_mark :: "FS \<Rightarrow> uint32 \<Rightarrow> (error + uint32) \<times> FS" where
  "Alloc_mark f c =
     (case WriteFAT f c EOF of
        (Inl e, f') \<Rightarrow> (Inl e, f')
      | (Inr _, f') \<Rightarrow> (Inr c, f'))"

text \<open>
  The example volume on a device that fails its fifth call: in \<open>Alloc\<close> that is the write of
  the second FAT copy.
\<close>

definition faulty_fs :: FS where
  "faulty_fs = blank_fs\<lparr>Device := blank_device\<lparr>faults := [False, False, False, False, True]\<rparr>\<rparr>"

text \<open>
  The FAT after a chain has been freed: in every FAT copy the entries of the chain's
  clusters have 0 in their bits 0-27 and keep their bits 28-31, and every other entry of
  the FAT is as before.
\<close>

definition chain_freed :: "FS \<Rightarrow> FS \<Rightarrow> uint32 list \<Rightarrow> bool" where
  "chain_freed f f' xs =
     (fatSectors f' = fatSectors f \<and> BootSector f' = BootSector f \<and>
      (\<forall>off \<in> set (fatSectors f).
        (\<forall>x \<in> set xs.
           fat_raw (store (Device f')) off x AND 0x0FFFFFFF = 0
           \<and> fat_raw (store (Device f')) off x AND 0xF0000000
               = fat_raw (store (Device f)) off x AND 0xF0000000)
        \<and> (\<forall>k. k \<notin> set xs \<and> k div 128 < FatSz32 (BootSector f) \<longrightarrow>
               fat_raw (store (Device f')) off k = fat_raw (store (Device f)) off k)))"

text \<open>The entry of a cluster is an end-of-chain marker.\<close>

definition at_end :: "FS \<Rightarrow> uint32 \<Rightarrow> bool" where
  "at_end f x = (\<exists>e. fat_entry f x = Inr e \<and> EOF \<le> e)"

text \<open>
  The store after a successful \<open>WriteFAT k v\<close> on a well-formed FAT: the sector of entry
  \<open>k\<close> is patched in every copy.
\<close>

definition fat_write :: "FS \<Rightarrow> uint32 \<Rightarrow> uint32 \<Rightarrow> (uint32 \<Rightarrow> Sector) \<Rightarrow> (uint32 \<Rightarrow> Sector)" where
  "fat_write f k v st =
     (\<lambda>l. if l \<in> (\<lambda>off. k div 128 + off) ` set (fatSectors f)
          then fat_patch (st l) (snd (fatIndices k)) v
          else st l)"

text \<open>
  The example volume with a chain of one cluster, cluster 2, whose entry holds the
  end-of-chain marker \<open>m\<close>.
\<close>

definition end_fs :: "uint32 \<Rightarrow> FS" where
  "end_fs m = snd (WriteFAT blank_fs 2 m)"

text \<open>The example volume whose two FAT copies have the sector \<open>S\<close> as their first sector.\<close>

definition fs_with :: "Sector \<Rightarrow> FS" where
  "fs_with S =
     blank_fs\<lparr>Device := blank_device\<lparr>store := (\<lambda>_. replicate 512 0)(32 := S, 48 := S)\<rparr>\<rparr>"



text \<open>
  The sector number \<open>i\<close> of cluster \<open>x\<close>, as \<open>clusterSector\<close> computes it, and the bytes of a
  cluster on the device.
\<close>

definition data_sector :: "FS \<Rightarrow> uint32 \<Rightarrow> nat \<Rightarrow> uint32" where
  "data_sector f x i = clusterSector \<lparr>fs = f, cluster = x, prev = []\<rparr> + of_nat i"

definition cluster_data :: "FS \<Rightarrow> uint32 \<Rightarrow> byte list" where
  "cluster_data f x =
     concat (map (\<lambda>i. store (Device f) (data_sector f x i))
       [0..<unat (SecPerClus (BootSector f))])"

text \<open>
  A well-formed volume with \<open>nc\<close> clusters: sectors of 512 bytes, the FAT copies where
  \<open>NewFS\<close> puts them and within the volume, at least one copy, a cluster size that is not
  0, a cluster count below the end-of-chain markers, and a FAT with an entry for every
  cluster and at most \<open>2 ^ 32\<close> entries.
\<close>

definition wf_volume :: "FS \<Rightarrow> uint32 \<Rightarrow> bool" where
  "wf_volume f nc =
     (wf_device (Device f) \<and> wf_fat f \<and> fatSectors f \<noteq> []
      \<and> SecPerClus (BootSector f) \<noteq> 0 \<and> NumClusters f = Inr nc \<and> nc \<le> EOF
      \<and> unat nc \<le> unat (FatSz32 (BootSector f)) * 128
      \<and> unat (FatSz32 (BootSector f)) * 128 \<le> 2 ^ 32)"

text \<open>
  The clusters \<open>xs\<close> are a chain of a well-formed volume: valid clusters, each linked to
  the next, the last one holding an end-of-chain marker. \<open>chain_data\<close> is the bytes of
  their clusters, in order.
\<close>

definition chain_ok :: "FS \<Rightarrow> uint32 \<Rightarrow> uint32 list \<Rightarrow> bool" where
  "chain_ok f nc xs =
     (wf_volume f nc \<and> xs \<noteq> [] \<and> linked f xs \<and> at_end f (last xs)
      \<and> (\<forall>x \<in> set xs. 2 \<le> x \<and> x < nc))"

definition chain_data :: "FS \<Rightarrow> uint32 list \<Rightarrow> byte list" where
  "chain_data f xs = concat (map (cluster_data f) xs)"

text \<open>An input of 1500 bytes: the bytes 0, 1, ..., 255, 0, 1, ... in this order.\<close>

definition example_input :: "byte list" where
  "example_input = map of_nat [0..<1500]"

section \<open>Properties of the device and of the codec\<close>

lemma next_fault_store: "next_fault d = (b, d') \<Longrightarrow> store d' = store d"
  by (auto simp: next_fault_def split: list.splits)

lemma ReadSector_store: "ReadSector d l = (r, d') \<Longrightarrow> store d' = store d"
  by (auto simp: ReadSector_def next_fault_store split: prod.splits bool.splits)

lemma ReadSector_Inr: "ReadSector d l = (Inr s, d') \<Longrightarrow> s = store d l"
  by (auto simp: ReadSector_def next_fault_store split: prod.splits bool.splits)

lemma WriteSector_Inr: "WriteSector d l s = (Inr u, d') \<Longrightarrow> store d' = (store d)(l := s)"
  by (auto simp: WriteSector_def next_fault_store split: prod.splits bool.splits)

lemma WriteSector_Inl: "WriteSector d l s = (Inl e, d') \<Longrightarrow> store d' = store d \<and> e = DeviceIO"
  by (auto simp: WriteSector_def next_fault_store split: prod.splits bool.splits)

lemma ReadSector_Inl: "ReadSector d l = (Inl e, d') \<Longrightarrow> e = DeviceIO"
  by (auto simp: ReadSector_def split: prod.splits bool.splits)

lemma ReadSector_next_ok: "next_ok d \<Longrightarrow> fst (ReadSector d l) = Inr (store d l)"
  by (auto simp: ReadSector_def next_ok_def next_fault_def split: list.splits)

lemma ReadSector_not_ok: "\<not> next_ok d \<Longrightarrow> fst (ReadSector d l) = Inl DeviceIO"
  by (auto simp: ReadSector_def next_ok_def next_fault_def split: list.splits)

text \<open>The four bytes of a 32-bit word, put together again.\<close>

lemma word32_bytes:
  "(ucast (ucast (v::uint32) :: byte) :: uint32)
     OR push_bit 8 (ucast (ucast (drop_bit 8 v) :: byte))
     OR push_bit 16 (ucast (ucast (drop_bit 16 v) :: byte))
     OR push_bit 24 (ucast (ucast (drop_bit 24 v) :: byte)) = v"
proof (rule bit_word_eqI)
  fix n assume "n < LENGTH(32)"
  then show "bit (ucast (ucast v :: byte)
     OR push_bit 8 (ucast (ucast (drop_bit 8 v) :: byte))
     OR push_bit 16 (ucast (ucast (drop_bit 16 v) :: byte))
     OR push_bit 24 (ucast (ucast (drop_bit 24 v) :: byte)) :: uint32) n = bit v n"
    by (cases "n < 8"; cases "n < 16"; cases "n < 24") (auto simp: bit_simps)
qed

lemma Uint32_PutUint32_same: "i + 4 \<le> length b \<Longrightarrow> Uint32 (PutUint32 b i v) i = v"
  by (simp add: Uint32_def PutUint32_def word32_bytes)

lemma Uint32_PutUint32_other:
  "j + 4 \<le> i \<or> i + 4 \<le> j \<Longrightarrow> Uint32 (PutUint32 b i v) j = Uint32 b j"
  by (auto simp: Uint32_def PutUint32_def)

lemma length_PutUint32: "length (PutUint32 b i v) = length b"
  by (simp add: PutUint32_def)


lemma low_mask: "(0x0fffffff::uint32) = mask 28"
  by (simp add: mask_eq_exp_minus_1)

lemma high_mask: "(0xf0000000::uint32) = NOT (mask 28)"
  by (simp add: mask_eq_exp_minus_1 not_eq_complement)

lemma mask_low:
  "(((v::uint32) AND 0x0fffffff) OR (x AND 0xf0000000)) AND 0x0fffffff = v AND 0x0fffffff"
  unfolding low_mask high_mask by (rule bit_word_eqI) (auto simp: bit_simps)

lemma mask_high:
  "(((v::uint32) AND 0x0fffffff) OR (x AND 0xf0000000)) AND 0xf0000000 = x AND 0xf0000000"
  unfolding low_mask high_mask by (rule bit_word_eqI) (auto simp: bit_simps)

lemma length_fat_patch: "length (fat_patch b i v) = length b"
  by (simp add: fat_patch_def length_PutUint32)

lemma fat_patch_low:
  "i + 4 \<le> length b \<Longrightarrow> Uint32 (fat_patch b i v) i AND 0x0fffffff = v AND 0x0fffffff"
  by (simp add: fat_patch_def Uint32_PutUint32_same mask_low)

lemma fat_patch_high:
  "i + 4 \<le> length b \<Longrightarrow> Uint32 (fat_patch b i v) i AND 0xf0000000 = Uint32 b i AND 0xf0000000"
  by (simp add: fat_patch_def Uint32_PutUint32_same mask_high)

lemma fatIndices_bound: "snd (fatIndices k) + 4 \<le> SectorSize"
proof -
  have "unat (k mod 128) < 128"
    by (simp add: unat_mod)
  then show ?thesis by (simp add: fatIndices_def SectorSize_def)
qed

section \<open>ReadFAT and WriteFAT\<close>

lemma WriteFAT_loop_store:
  "WriteFAT_loop d s bi v offs = (Inr u, d') \<Longrightarrow>
   store d' = fold (patch_store s bi v) offs (store d)"
proof (induction offs arbitrary: d)
  case Nil
  then show ?case by simp
next
  case (Cons off offs)
  from Cons.prems obtain block d1 d2 where
    r: "ReadSector d (s + off) = (Inr block, d1)" and
    w: "WriteSector d1 (s + off) (fat_patch block bi v) = (Inr (), d2)" and
    l: "WriteFAT_loop d2 s bi v offs = (Inr u, d')"
    by (auto simp: fat_patch_def Let_def split: prod.splits sum.splits)
  have "store d2 = patch_store s bi v off (store d)"
    using ReadSector_store[OF r] ReadSector_Inr[OF r] WriteSector_Inr[OF w]
    by (simp add: patch_store_def)
  with Cons.IH[OF l] show ?case by simp
qed

lemma fold_patch_length:
  "\<forall>l. length (st l) = n \<Longrightarrow> length (fold (patch_store s bi v) offs st l) = n"
  by (induction offs arbitrary: st) (auto simp: patch_store_def length_fat_patch)

lemma fold_patch_low:
  "\<forall>l. length (st l) = n \<Longrightarrow> bi + 4 \<le> n \<Longrightarrow>
   Uint32 (st a) bi AND 0x0fffffff = v AND 0x0fffffff \<Longrightarrow>
   Uint32 (fold (patch_store s bi v) offs st a) bi AND 0x0fffffff = v AND 0x0fffffff"
proof (induction offs arbitrary: st)
  case Nil
  then show ?case by simp
next
  case (Cons off offs)
  let ?st = "patch_store s bi v off st"
  have 1: "\<forall>l. length (?st l) = n"
    using Cons.prems(1) by (simp add: patch_store_def length_fat_patch)
  have 2: "Uint32 (?st a) bi AND 0x0fffffff = v AND 0x0fffffff"
    using Cons.prems by (simp add: patch_store_def fat_patch_low)
  show ?case using Cons.IH[OF 1 Cons.prems(2) 2] by simp
qed

lemma ReadFAT_value:
  "fatSectors f = fat0 # rest \<Longrightarrow>
   fst (ReadFAT f k) =
     (if next_ok (Device f)
      then Inr (Uint32 (store (Device f) (fat0 + fst (fatIndices k))) (snd (fatIndices k))
                 AND 0x0fffffff)
      else Inl DeviceIO)"
  using ReadSector_next_ok[of "Device f" "fat0 + fst (fatIndices k)"]
        ReadSector_not_ok[of "Device f" "fat0 + fst (fatIndices k)"]
  by (cases "next_ok (Device f)") (auto simp: ReadFAT_def split: prod.splits sum.splits)

lemma WriteFAT_fields:
  "WriteFAT f k v = (r, f') \<Longrightarrow> fatSectors f' = fatSectors f \<and> BootSector f' = BootSector f"
  by (auto simp: WriteFAT_def split: prod.splits)

lemma WriteFAT_store:
  "WriteFAT f k v = (Inr u, f') \<Longrightarrow>
   store (Device f') =
     fold (patch_store (fst (fatIndices k)) (snd (fatIndices k)) v) (fatSectors f)
       (store (Device f))"
  by (auto simp: WriteFAT_def split: prod.splits dest!: WriteFAT_loop_store)

text \<open>
  Claim C2. On a file system with at least one FAT copy, after a successful
  \<open>WriteFAT f k v\<close> the call \<open>ReadFAT k\<close> returns \<open>v AND 0x0FFFFFFF\<close>, for every index \<open>k\<close>
  and every value \<open>v\<close>: the high four bits of \<open>v\<close> are not stored, and the value is read
  from the first copy. The only other outcome of the read is the I/O error of a device
  that fails the read itself.
\<close>

theorem WriteFAT_then_ReadFAT:
  assumes wf: "wf_device (Device f)"
    and fats: "fatSectors f \<noteq> []"
    and w: "WriteFAT f k v = (Inr (), f')"
  shows "fst (ReadFAT f' k) =
           (if next_ok (Device f') then Inr (v AND 0x0FFFFFFF) else Inl DeviceIO)"
proof -
  obtain fat0 rest where fs: "fatSectors f = fat0 # rest"
    using fats by (cases "fatSectors f") auto
  let ?s = "fst (fatIndices k)" and ?bi = "snd (fatIndices k)"
  let ?st = "patch_store ?s ?bi v fat0 (store (Device f))"
  have len: "\<forall>l. length (store (Device f) l) = SectorSize"
    using wf by (simp add: wf_device_def)
  have 1: "\<forall>l. length (?st l) = SectorSize"
    using len by (simp add: patch_store_def length_fat_patch)
  have 2: "Uint32 (?st (fat0 + ?s)) ?bi AND 0x0fffffff = v AND 0x0fffffff"
    using len fatIndices_bound[of k] by (simp add: patch_store_def fat_patch_low add.commute)
  have "store (Device f') = fold (patch_store ?s ?bi v) rest ?st"
    using WriteFAT_store[OF w] fs by simp
  then have "Uint32 (store (Device f') (fat0 + ?s)) ?bi AND 0x0fffffff = v AND 0x0fffffff"
    using fold_patch_low[OF 1 fatIndices_bound 2] by simp
  moreover have "fatSectors f' = fat0 # rest"
    using WriteFAT_fields[OF w] fs by simp
  ultimately show ?thesis
    by (simp add: ReadFAT_value)
qed

lemma wf_blank: "wf_device (Device blank_fs)"
  by (simp add: wf_device_def blank_fs_def blank_device_def SectorSize_def)

lemma blank_write: "fst (WriteFAT blank_fs 5 0xABCDEF12) = Inr ()"
  by (simp add: WriteFAT_def fatIndices_def blank_fs_def blank_device_def ReadSector_def
      WriteSector_def next_fault_def)

theorem WriteFAT_then_ReadFAT_witness:
  "wf_device (Device blank_fs) \<and> fatSectors blank_fs \<noteq> []
   \<and> fst (WriteFAT blank_fs 5 0xABCDEF12) = Inr ()
   \<and> fst (ReadFAT (snd (WriteFAT blank_fs 5 0xABCDEF12)) 5) = Inr 0x0BCDEF12"
proof -
  have w: "WriteFAT blank_fs 5 0xABCDEF12 = (Inr (), snd (WriteFAT blank_fs 5 0xABCDEF12))"
    using blank_write by (cases "WriteFAT blank_fs 5 0xABCDEF12") simp
  have fats: "fatSectors blank_fs \<noteq> []" by (simp add: blank_fs_def)
  have ok: "next_ok (Device (snd (WriteFAT blank_fs 5 0xABCDEF12)))"
    by (simp add: next_ok_def WriteFAT_def fatIndices_def blank_fs_def blank_device_def
        ReadSector_def WriteSector_def next_fault_def)
  show ?thesis
    using WriteFAT_then_ReadFAT[OF wf_blank fats w] ok wf_blank fats blank_write by simp
qed

section \<open>The geometry of the FAT copies\<close>

lemma length_fat_offsets: "length (fat_offsets n a sz) = n"
  by (induction n arbitrary: a) auto

lemma nth_fat_offsets: "i < n \<Longrightarrow> fat_offsets n a sz ! i = a + of_nat i * sz"
proof (induction n arbitrary: a i)
  case 0
  then show ?case by simp
next
  case (Suc n)
  then show ?case by (cases i) (auto simp: algebra_simps)
qed

lemma unat_ucast_16_32: "unat (ucast (x::uint16) :: uint32) = unat x"
proof -
  have "unat x < 2 ^ 16" using unsigned_less[of x, where 'a=nat] by simp
  then have "unat x < 2 ^ 32" by simp
  then show ?thesis by (simp add: unsigned_ucast_eq take_bit_nat_eq_self)
qed

lemma unat_ucast_8_32: "unat (ucast (x::byte) :: uint32) = unat x"
proof -
  have "unat x < 2 ^ 8" using unsigned_less[of x, where 'a=nat] by simp
  then have "unat x < 2 ^ 32" by simp
  then show ?thesis by (simp add: unsigned_ucast_eq take_bit_nat_eq_self)
qed

lemma unat_fat_sector:
  fixes a sz t :: uint32
  assumes "unat a + n * unat sz \<le> 2 ^ 32" "i < n" "t < sz"
  shows "unat (t + (a + of_nat i * sz)) = unat t + unat a + i * unat sz"
proof -
  have "unat t < unat sz" using assms(3) by (simp add: word_less_nat_alt)
  then have "unat t + i * unat sz < (i + 1) * unat sz" by simp
  also have "\<dots> \<le> n * unat sz" using assms(2) by (intro mult_le_mono1) simp
  finally have b: "unat t + unat a + i * unat sz < 2 ^ 32" using assms(1) by simp
  have "word_of_nat (unat t + unat a + i * unat sz) = t + (a + of_nat i * sz)"
    by simp
  from of_nat_inverse[OF this] b show ?thesis by simp
qed

lemma fat_sector_inj:
  fixes a sz t s :: uint32
  assumes "unat a + n * unat sz \<le> 2 ^ 32" "i < n" "j < n" "t < sz" "s < sz"
    and eq: "t + (a + of_nat i * sz) = s + (a + of_nat j * sz)"
  shows "t = s \<and> i = j"
proof -
  have ts: "unat t < unat sz" "unat s < unat sz"
    using assms(4,5) by (simp_all add: word_less_nat_alt)
  have "unat t + unat a + i * unat sz = unat s + unat a + j * unat sz"
    using unat_fat_sector[OF assms(1,2,4)] unat_fat_sector[OF assms(1,3,5)] eq by simp
  then have e: "unat t + i * unat sz = unat s + j * unat sz" by simp
  then have "(unat t + i * unat sz) mod unat sz = (unat s + j * unat sz) mod unat sz" by simp
  then have 1: "unat t = unat s" using ts by simp
  with e ts have "i = j" by simp
  with 1 show ?thesis by (simp add: word_unat_eq_iff)
qed

lemma wf_fat_offsets:
  assumes "wf_fat f"
  shows "fatSectors f =
           fat_offsets (unat (NumFATs (BootSector f))) (ucast (RsvdSecCnt (BootSector f)))
             (FatSz32 (BootSector f))"
    and "unat (ucast (RsvdSecCnt (BootSector f)) :: uint32)
           + unat (NumFATs (BootSector f)) * unat (FatSz32 (BootSector f)) \<le> 2 ^ 32"
proof -
  show "fatSectors f =
           fat_offsets (unat (NumFATs (BootSector f))) (ucast (RsvdSecCnt (BootSector f)))
             (FatSz32 (BootSector f))"
    using assms by (simp add: wf_fat_def Let_def)
  have "unat (TotSec32 (BootSector f)) < 2 ^ 32"
    using unsigned_less[of "TotSec32 (BootSector f)", where 'a=nat] by simp
  moreover have "unat (ucast (RsvdSecCnt (BootSector f)) :: uint32) = unat (RsvdSecCnt (BootSector f))"
    by (rule unat_ucast_16_32)
  ultimately show "unat (ucast (RsvdSecCnt (BootSector f)) :: uint32)
           + unat (NumFATs (BootSector f)) * unat (FatSz32 (BootSector f)) \<le> 2 ^ 32"
    using assms by (simp add: wf_fat_def Let_def)
qed

text \<open>Two sectors of the FAT region coincide only at the same place of the same copy.\<close>

lemma wf_fat_inj:
  assumes wf: "wf_fat f"
    and "off \<in> set (fatSectors f)" "off' \<in> set (fatSectors f)"
    and "t < FatSz32 (BootSector f)" "s < FatSz32 (BootSector f)"
    and "t + off = s + off'"
  shows "t = s \<and> off = off'"
proof -
  let ?n = "unat (NumFATs (BootSector f))" and ?a = "ucast (RsvdSecCnt (BootSector f)) :: uint32"
  let ?sz = "FatSz32 (BootSector f)"
  from assms(2) obtain i where i: "i < ?n" "off = ?a + of_nat i * ?sz"
    using wf_fat_offsets(1)[OF wf]
    by (metis in_set_conv_nth length_fat_offsets nth_fat_offsets)
  from assms(3) obtain j where j: "j < ?n" "off' = ?a + of_nat j * ?sz"
    using wf_fat_offsets(1)[OF wf]
    by (metis in_set_conv_nth length_fat_offsets nth_fat_offsets)
  show ?thesis
    using fat_sector_inj[OF wf_fat_offsets(2)[OF wf] i(1) j(1) assms(4,5)] assms(6) i(2) j(2)
    by simp
qed

lemma wf_fat_distinct:
  assumes wf: "wf_fat f" and s: "s < FatSz32 (BootSector f)"
  shows "distinct (map (\<lambda>off. s + off) (fatSectors f))"
proof -
  let ?n = "unat (NumFATs (BootSector f))" and ?a = "ucast (RsvdSecCnt (BootSector f)) :: uint32"
  let ?sz = "FatSz32 (BootSector f)"
  have fs: "fatSectors f = fat_offsets ?n ?a ?sz" by (rule wf_fat_offsets(1)[OF wf])
  show ?thesis
    unfolding distinct_conv_nth
  proof (intro allI impI)
    fix i j
    assume "i < length (map (\<lambda>off. s + off) (fatSectors f))"
      "j < length (map (\<lambda>off. s + off) (fatSectors f))" "i \<noteq> j"
    then have ij: "i < ?n" "j < ?n" "i \<noteq> j" by (simp_all add: fs length_fat_offsets)
    show "map (\<lambda>off. s + off) (fatSectors f) ! i \<noteq> map (\<lambda>off. s + off) (fatSectors f) ! j"
      using fat_sector_inj[OF wf_fat_offsets(2)[OF wf] ij(1,2) s s] ij
      by (auto simp: fs length_fat_offsets nth_fat_offsets)
  qed
qed

lemma fold_patch_closed:
  "distinct (map (\<lambda>off. s + off) offs) \<Longrightarrow>
   fold (patch_store s bi v) offs st =
     (\<lambda>l. if l \<in> (\<lambda>off. s + off) ` set offs then fat_patch (st l) bi v else st l)"
proof (induction offs arbitrary: st)
  case Nil
  then show ?case by simp
next
  case (Cons a offs)
  then show ?case by (auto simp: patch_store_def fun_eq_iff)
qed


lemma fatIndices_fst: "fst (fatIndices k) = k div 128"
  by (simp add: fatIndices_def)

lemma WriteFAT_closed:
  assumes wf: "wf_fat f" and k: "k div 128 < FatSz32 (BootSector f)"
    and w: "WriteFAT f k v = (Inr u, f')"
  shows "store (Device f') =
           (\<lambda>l. if l \<in> (\<lambda>off. k div 128 + off) ` set (fatSectors f)
                then fat_patch (store (Device f) l) (snd (fatIndices k)) v
                else store (Device f) l)"
  using WriteFAT_store[OF w] fold_patch_closed[OF wf_fat_distinct[OF wf k]]
  by (simp add: fatIndices_fst)


lemma example_bs_fields:
  "SecPerClus example_bs = 1" "RsvdSecCnt example_bs = 32" "NumFATs example_bs = 2"
  "TotSec32 example_bs = 2048" "FatSz32 example_bs = 16" "RootClus example_bs = 2"
  by (simp_all add: example_bs_def SecPerClus_def RsvdSecCnt_def NumFATs_def TotSec32_def
      FatSz32_def RootClus_def Uint16_def Uint32_def nth_append)

lemma fat_offsets_2: "fat_offsets 2 a sz = [a, a + sz]"
  by (simp add: numeral_2_eq_2)

lemma wf_fat_blank: "wf_fat blank_fs"
  by (simp add: wf_fat_def blank_fs_def example_bs_fields fat_offsets_2)

lemma mirrors_blank: "mirrors_identical blank_fs"
  by (simp add: mirrors_identical_def blank_fs_def blank_device_def)


section \<open>Seek\<close>

lemma fat_entry_cong:
  "store (Device f') = store (Device f) \<Longrightarrow> fatSectors f' = fatSectors f \<Longrightarrow>
   fat_entry f' k = fat_entry f k"
  by (simp add: fat_entry_def no_faults_def ReadFAT_def ReadSector_def next_fault_def
      split: prod.splits list.splits)

lemma ReadFAT_fields:
  "ReadFAT f k = (r, f') \<Longrightarrow>
   store (Device f') = store (Device f) \<and> fatSectors f' = fatSectors f
     \<and> BootSector f' = BootSector f"
  by (auto simp: ReadFAT_def split: prod.splits list.splits sum.splits dest: ReadSector_store)

lemma ReadFAT_Inr: "ReadFAT f k = (Inr v, f') \<Longrightarrow> fat_entry f k = Inr v"
  by (auto simp: fat_entry_def no_faults_def ReadFAT_def ReadSector_def next_fault_def
      split: prod.splits list.splits sum.splits bool.splits)

lemma linked_cong:
  "store (Device f') = store (Device f) \<Longrightarrow> fatSectors f' = fatSectors f \<Longrightarrow>
   linked f' xs = linked f xs"
proof (induction f xs rule: linked.induct)
  case (3 f x y r)
  then show ?case using fat_entry_cong[of f' f x] by simp
qed simp_all

lemma follow_links_cong:
  "store (Device f') = store (Device f) \<Longrightarrow> fatSectors f' = fatSectors f \<Longrightarrow>
   follow_links f' s n = follow_links f s n"
proof (induction n arbitrary: s)
  case 0
  then show ?case by simp
next
  case (Suc n)
  then show ?case using fat_entry_cong[of f' f s] by (simp split: sum.splits)
qed

lemma linked_snoc:
  "linked f (xs @ [y]) \<Longrightarrow> fat_entry f y = Inr z \<Longrightarrow> linked f (xs @ [y, z])"
  by (induction f xs rule: linked.induct) auto

lemma linked_take: "linked f xs \<Longrightarrow> linked f (take n xs)"
proof (induction f xs arbitrary: n rule: linked.induct)
  case (1 f)
  then show ?case by simp
next
  case (2 f x)
  then show ?case by (cases n) auto
next
  case (3 f x y r)
  show ?case
  proof (cases n)
    case 0
    then show ?thesis by simp
  next
    case (Suc m)
    then show ?thesis using 3(1)[of m] 3(2) by (cases m) auto
  qed
qed

lemma linked_follow:
  "linked f (xs @ [y]) \<Longrightarrow> follow_links f (hd (xs @ [y])) (length xs) = Some y"
proof (induction xs)
  case Nil
  then show ?case by simp
next
  case (Cons a xs)
  then show ?case by (cases xs) auto
qed

text \<open>The cursor's invariant: the back path and the current cluster are one linked list.\<close>

lemma take_Suc_snoc: "n < length xs \<Longrightarrow> take n xs @ [xs ! n] = take (Suc n) (xs @ [y])"
  by (simp add: take_Suc_conv_app_nth)

lemma Seek_forward_inv:
  assumes "Seek_forward c n = (Inr p, c')"
    and "linked (fs c) (prev c @ [cluster c])"
  shows "linked (fs c') (prev c' @ [cluster c']) \<and> p = int (length (prev c'))
         \<and> hd (prev c' @ [cluster c']) = hd (prev c @ [cluster c])
         \<and> store (Device (fs c')) = store (Device (fs c))
         \<and> fatSectors (fs c') = fatSectors (fs c) \<and> BootSector (fs c') = BootSector (fs c)"
  using assms
proof (induction n arbitrary: c)
  case 0
  then show ?case by auto
next
  case (Suc n)
  obtain r f1 where rf: "ReadFAT (fs c) (cluster c) = (r, f1)"
    by (cases "ReadFAT (fs c) (cluster c)")
  from Suc.prems(1) rf obtain nxt where r: "r = Inr nxt"
    by (cases r) auto
  note fl = ReadFAT_fields[OF rf]
  show ?case
  proof (cases "nxt \<ge> EOF")
    case True
    then have "c' = c\<lparr>fs := f1\<rparr>" "p = int (length (prev c))"
      using Suc.prems(1) rf r by auto
    then show ?thesis
      using Suc.prems(2) fl linked_cong[of f1 "fs c"] by simp
  next
    case False
    let ?c1 = "c\<lparr>fs := f1, prev := prev c @ [cluster c], cluster := nxt\<rparr>"
    have s: "Seek_forward ?c1 n = (Inr p, c')"
      using Suc.prems(1) rf r False by simp
    have "linked (fs c) (prev c @ [cluster c, nxt])"
      using linked_snoc[OF Suc.prems(2)] ReadFAT_Inr rf r by simp
    then have l: "linked (fs ?c1) (prev ?c1 @ [cluster ?c1])"
      using fl linked_cong[of f1 "fs c"] by simp
    from Suc.IH[OF s l] show ?thesis
      using fl by (cases "prev c") auto
  qed
qed

lemma Seek_backward_inv:
  assumes "n < length (prev c)" and "linked (fs c) (prev c @ [cluster c])"
  shows "linked (fs c) (take n (prev c) @ [prev c ! n])
         \<and> hd (take n (prev c) @ [prev c ! n]) = hd (prev c @ [cluster c])"
proof -
  have "take n (prev c) @ [prev c ! n] = take (Suc n) (prev c @ [cluster c])"
    using assms(1) by (rule take_Suc_snoc)
  moreover have "hd (take (Suc n) (prev c @ [cluster c])) = hd (prev c @ [cluster c])"
    by (cases "prev c") auto
  ultimately show ?thesis
    using linked_take[OF assms(2), of "Suc n"] by simp
qed

lemma Seek_Current:
  "Seek c offset SeekCurrent =
     (if sint offset < 0 then
        (if sint (- offset) > int (length (prev c)) then (Inl BeforeStart, c)
         else
           (let newPrevLen = int (length (prev c)) + sint offset in
            if newPrevLen < 0 then (Inl Panic, c)
            else
              (let c' = c\<lparr>cluster := prev c ! nat newPrevLen,
                          prev := take (nat newPrevLen) (prev c)\<rparr>
               in (Inr (int (length (prev c'))), c'))))
      else Seek_forward c (nat (sint offset)))"
  by (subst Seek.simps) (simp add: SeekStart_def SeekCurrent_def)

lemma Seek_Current_inv:
  assumes s: "Seek c offset SeekCurrent = (Inr p, c')"
    and l: "linked (fs c) (prev c @ [cluster c])"
  shows "linked (fs c') (prev c' @ [cluster c']) \<and> p = int (length (prev c'))
         \<and> hd (prev c' @ [cluster c']) = hd (prev c @ [cluster c])
         \<and> store (Device (fs c')) = store (Device (fs c))
         \<and> fatSectors (fs c') = fatSectors (fs c) \<and> BootSector (fs c') = BootSector (fs c)"
proof (cases "sint offset < 0")
  case True
  let ?n = "nat (int (length (prev c)) + sint offset)"
  have e: "Seek c offset SeekCurrent =
      (if sint (- offset) > int (length (prev c)) then (Inl BeforeStart, c)
       else if int (length (prev c)) + sint offset < 0 then (Inl Panic, c)
       else (Inr (int (length (take ?n (prev c)))),
             c\<lparr>cluster := prev c ! ?n, prev := take ?n (prev c)\<rparr>))"
    using True by (simp add: Seek_Current Let_def)
  have ok: "\<not> sint (- offset) > int (length (prev c))"
      "\<not> int (length (prev c)) + sint offset < 0"
    using s unfolding e by (simp_all split: if_splits)
  then have "c' = c\<lparr>cluster := prev c ! ?n, prev := take ?n (prev c)\<rparr>
      \<and> p = int (length (take ?n (prev c)))"
    using s unfolding e by simp
  then have c': "c' = c\<lparr>cluster := prev c ! ?n, prev := take ?n (prev c)\<rparr>"
    and p: "p = int (length (prev c'))"
    by simp_all
  have n: "?n < length (prev c)" using True ok by linarith
  show ?thesis
    using Seek_backward_inv[OF n l] p by (simp add: c')
next
  case False
  then have "Seek_forward c (nat (sint offset)) = (Inr p, c')"
    using s by (simp add: Seek_Current)
  from Seek_forward_inv[OF this l] show ?thesis .
qed


lemma Seek_Start:
  "Seek c offset SeekStart =
     (if int (length (prev c)) > sint offset then
        (if sint offset < 0 then (Inl Panic, c)
         else (Inr (sint offset),
               c\<lparr>cluster := prev c ! nat (sint offset),
                 prev := take (nat (sint offset)) (prev c)\<rparr>))
      else if int (length (prev c)) = sint offset then (Inr (sint offset), c)
      else Seek c (offset - of_nat (length (prev c))) SeekCurrent)"
  by (subst Seek.simps) simp

lemma Seek_End:
  "Seek c offset SeekEnd =
     (case Seek c 0x100000000 SeekCurrent of
        (Inl e, c1) \<Rightarrow> (Inl e, c1)
      | (Inr _, c1) \<Rightarrow> Seek c1 offset SeekCurrent)"
  by (subst Seek.simps) (simp add: SeekStart_def SeekCurrent_def SeekEnd_def)

lemma Seek_unknown:
  "whence \<noteq> SeekStart \<Longrightarrow> whence \<noteq> SeekCurrent \<Longrightarrow> whence \<noteq> SeekEnd \<Longrightarrow>
   Seek c offset whence = (Inl UnknownWhence, c)"
  by (subst Seek.simps) simp

lemma Seek_inv:
  assumes s: "Seek c offset whence = (Inr p, c')"
    and l: "linked (fs c) (prev c @ [cluster c])"
  shows "linked (fs c') (prev c' @ [cluster c']) \<and> p = int (length (prev c'))
         \<and> hd (prev c' @ [cluster c']) = hd (prev c @ [cluster c])
         \<and> store (Device (fs c')) = store (Device (fs c))
         \<and> fatSectors (fs c') = fatSectors (fs c) \<and> BootSector (fs c') = BootSector (fs c)"
proof -
  consider (start) "whence = SeekStart" | (current) "whence = SeekCurrent"
    | (from_end) "whence = SeekEnd"
    | (other) "whence \<noteq> SeekStart" "whence \<noteq> SeekCurrent" "whence \<noteq> SeekEnd"
    by blast
  then show ?thesis
  proof cases
    case start
    let ?n = "nat (sint offset)"
    consider (rewind) "int (length (prev c)) > sint offset"
      | (stay) "int (length (prev c)) = sint offset"
      | (forward) "int (length (prev c)) < sint offset"
      by linarith
    then show ?thesis
    proof cases
      case rewind
      with s start have nn: "\<not> sint offset < 0"
        and c': "c' = c\<lparr>cluster := prev c ! ?n, prev := take ?n (prev c)\<rparr>"
        and p: "p = sint offset"
        by (auto simp: Seek_Start split: if_splits)
      have n: "?n < length (prev c)" using rewind nn by linarith
      have "p = int (length (prev c'))" using n nn p by (simp add: c')
      then show ?thesis
        using Seek_backward_inv[OF n l] by (simp add: c')
    next
      case stay
      with s start have "c' = c" "p = sint offset"
        by (auto simp: Seek_Start)
      then show ?thesis using l stay by simp
    next
      case forward
      with s start have "Seek c (offset - of_nat (length (prev c))) SeekCurrent = (Inr p, c')"
        by (simp add: Seek_Start)
      from Seek_Current_inv[OF this l] show ?thesis .
    qed
  next
    case current
    with s Seek_Current_inv[OF _ l] show ?thesis by simp
  next
    case from_end
    obtain r c1 where 1: "Seek c 0x100000000 SeekCurrent = (r, c1)"
      by (cases "Seek c 0x100000000 SeekCurrent")
    with s from_end obtain q where r: "r = Inr q"
      by (cases r) (auto simp: Seek_End)
    have 2: "Seek c1 offset SeekCurrent = (Inr p, c')"
      using s from_end 1 r by (simp add: Seek_End)
    note i1 = Seek_Current_inv[OF 1[unfolded r] l]
    from i1 have "linked (fs c1) (prev c1 @ [cluster c1])" by blast
    from Seek_Current_inv[OF 2 this] i1 show ?thesis by simp
  next
    case other
    with s show ?thesis by (simp add: Seek_unknown)
  qed
qed

lemma Seeks_inv:
  assumes "Seeks c ops = Inr c'"
    and "linked (fs c) (prev c @ [cluster c])"
  shows "linked (fs c') (prev c' @ [cluster c'])
         \<and> hd (prev c' @ [cluster c']) = hd (prev c @ [cluster c])
         \<and> store (Device (fs c')) = store (Device (fs c))
         \<and> fatSectors (fs c') = fatSectors (fs c)"
  using assms
proof (induction ops arbitrary: c)
  case Nil
  then show ?case by simp
next
  case (Cons op ops)
  obtain offset whence where op: "op = (offset, whence)" by (cases op)
  obtain r c1 where 1: "Seek c offset whence = (r, c1)" by (cases "Seek c offset whence")
  with Cons.prems(1) op obtain q where r: "r = Inr q" by (cases r) auto
  have 2: "Seeks c1 ops = Inr c'" using Cons.prems(1) op 1 r by simp
  note i1 = Seek_inv[OF 1[unfolded r] Cons.prems(2)]
  from i1 have "linked (fs c1) (prev c1 @ [cluster c1])" by blast
  from Cons.IH[OF 2 this] i1 show ?case by simp
qed

lemma FirstCluster_hd: "FirstCluster c = hd (prev c @ [cluster c])"
  by (cases "prev c") (auto simp: FirstCluster_def)

text \<open>
  Claim C1. Let a chain be made at the starting cluster \<open>s\<close> and let any sequence of calls
  of \<open>Seek\<close>, with any offsets and any values of whence, return without error, the last of
  them with the position \<open>p\<close>. Then following the links of the FAT from \<open>s\<close> for as many
  steps as the back path is long reaches the current cluster, before and after the last
  call; the returned position is the length of the back path; and \<open>FirstCluster\<close> is the
  first cluster of the back path when that is not empty, the current cluster otherwise,
  which is \<open>s\<close>.
\<close>

theorem Seek_cursor_invariant:
  assumes ops: "Seeks (NewChain f s) ops = Inr c"
    and last: "Seek c offset whence = (Inr p, c')"
  shows "follow_links f s (length (prev c)) = Some (cluster c)
       \<and> follow_links f s (length (prev c')) = Some (cluster c')
       \<and> p = int (length (prev c'))
       \<and> FirstCluster c' = (if prev c' \<noteq> [] then prev c' ! 0 else cluster c')
       \<and> FirstCluster c' = s"
proof -
  have l0: "linked (fs (NewChain f s)) (prev (NewChain f s) @ [cluster (NewChain f s)])"
    by (simp add: NewChain_def)
  note i1 = Seeks_inv[OF ops l0]
  then have l1: "linked (fs c) (prev c @ [cluster c])" by blast
  note i2 = Seek_inv[OF last l1]
  have eq1: "store (Device (fs c)) = store (Device f)" "fatSectors (fs c) = fatSectors f"
    and hd1: "hd (prev c @ [cluster c]) = s"
    using i1 by (simp_all add: NewChain_def)
  have eq2: "store (Device (fs c')) = store (Device f)" "fatSectors (fs c') = fatSectors f"
    and hd2: "hd (prev c' @ [cluster c']) = s"
    using i2 eq1 hd1 by simp_all
  have "follow_links (fs c) s (length (prev c)) = Some (cluster c)"
    using linked_follow[OF l1] hd1 by simp
  then have a: "follow_links f s (length (prev c)) = Some (cluster c)"
    using follow_links_cong[OF eq1] by simp
  have "follow_links (fs c') s (length (prev c')) = Some (cluster c')"
    using linked_follow[of "fs c'" "prev c'" "cluster c'"] i2 hd2 by simp
  then have b: "follow_links f s (length (prev c')) = Some (cluster c')"
    using follow_links_cong[OF eq2] by simp
  have c: "FirstCluster c' = (if prev c' \<noteq> [] then prev c' ! 0 else cluster c')"
    by (simp add: FirstCluster_def)
  have d: "FirstCluster c' = s" using hd2 by (simp add: FirstCluster_hd)
  from a b c d i2 show ?thesis by blast
qed



lemmas device_defs = ReadSector_def WriteSector_def next_fault_def
lemmas blank_defs = blank_fs_def blank_device_def

lemma ReadFAT_chain_fs_2: "ReadFAT chain_fs 2 = (Inr 3, chain_fs)"
  by (simp add: chain_fs_def WriteFAT_def ReadFAT_def fatIndices_def device_defs blank_defs
      Uint32_def PutUint32_def EOF_def)

lemma ReadFAT_chain_fs_3: "ReadFAT chain_fs 3 = (Inr EOF, chain_fs)"
  by (simp add: chain_fs_def WriteFAT_def ReadFAT_def fatIndices_def device_defs blank_defs
      Uint32_def PutUint32_def EOF_def)


lemma Seek_forward_numeral:
  "Seek_forward c (numeral k) =
     (case ReadFAT (fs c) (cluster c) of
        (Inl e, f) \<Rightarrow> (Inl e, c\<lparr>fs := f\<rparr>)
      | (Inr next, f) \<Rightarrow>
          if next \<ge> EOF then (Inr (int (length (prev c))), c\<lparr>fs := f\<rparr>)
          else Seek_forward (c\<lparr>fs := f, prev := prev c @ [cluster c], cluster := next\<rparr>)
                 (pred_numeral k))"
  by (simp add: numeral_eq_Suc)

lemma Seek_forward_1:
  "Seek_forward c 1 =
     (case ReadFAT (fs c) (cluster c) of
        (Inl e, f) \<Rightarrow> (Inl e, c\<lparr>fs := f\<rparr>)
      | (Inr next, f) \<Rightarrow>
          if next \<ge> EOF then (Inr (int (length (prev c))), c\<lparr>fs := f\<rparr>)
          else (Inr (int (length (prev c)) + 1),
                c\<lparr>fs := f, prev := prev c @ [cluster c], cluster := next\<rparr>))"
  by (simp split: prod.splits sum.splits)

lemmas seek_eval = Seek_Start Seek_Current Seek_End Seek_forward_numeral Seek_forward_1
  ReadFAT_chain_fs_2 ReadFAT_chain_fs_3 NewChain_def EOF_def


theorem Seek_cursor_invariant_witness:
  "Seeks (NewChain chain_fs 2) [(1, SeekCurrent), (0, SeekEnd), (-1, SeekCurrent)]
     = Inr (NewChain chain_fs 2)
   \<and> Seek (NewChain chain_fs 2) 7 SeekStart
       = (Inr 1, \<lparr>fs = chain_fs, cluster = 3, prev = [2]\<rparr>)
   \<and> follow_links chain_fs 2 0 = Some 2
   \<and> follow_links chain_fs 2 1 = Some 3
   \<and> FirstCluster \<lparr>fs = chain_fs, cluster = 3, prev = [2]\<rparr> = 2"
proof -
  have ops: "Seeks (NewChain chain_fs 2) [(1, SeekCurrent), (0, SeekEnd), (-1, SeekCurrent)]
     = Inr (NewChain chain_fs 2)"
    by (simp add: seek_eval cong: prod.case_cong_weak sum.case_cong_weak)
  have last: "Seek (NewChain chain_fs 2) 7 SeekStart
       = (Inr 1, \<lparr>fs = chain_fs, cluster = 3, prev = [2]\<rparr>)"
    by (simp add: seek_eval cong: prod.case_cong_weak sum.case_cong_weak)
  show ?thesis
    using Seek_cursor_invariant[OF ops last] ops last by (simp add: NewChain_def)
qed

text \<open>
  Claim C9. A call of \<open>Seek\<close> with whence \<open>SeekCurrent\<close> and a negative offset beyond the
  back path returns the before-start error and leaves the chain as it is (lemma
  \<open>Seek_Current_before_start\<close>, for every offset but the least \<open>int64\<close>). With whence
  \<open>SeekStart\<close> and a negative offset the source compares \<open>int64(len(c.prev)) > offset\<close>,
  takes the rewinding branch and indexes \<open>c.prev[offset]\<close> with the negative offset: the
  call ends in a run-time panic instead of the error. The theorem is the call
  \<open>Seek(-1, io.SeekStart)\<close> on a fresh chain.
\<close>

theorem Seek_Start_negative_panics:
  "Seek (NewChain chain_fs 2) (-1) SeekStart = (Inl Panic, NewChain chain_fs 2)"
  by (simp add: Seek_Start NewChain_def)

lemma Seek_Start_negative:
  "sint offset < 0 \<Longrightarrow> Seek c offset SeekStart = (Inl Panic, c)"
  by (simp add: Seek_Start)

text \<open>
  The least \<open>int64\<close> is its own negation, so the check \<open>-offset > len\<close> lets it through
  and the index is negative (a Go slice is shorter than \<open>2 ^ 63\<close>).
\<close>

lemma Seek_Current_least:
  "length (prev c) < 2 ^ 63 \<Longrightarrow>
   Seek c (- 0x8000000000000000) SeekCurrent = (Inl Panic, c)"
  by (simp add: Seek_Current)

lemma sint_minus_int64:
  fixes x :: int64
  assumes "x \<noteq> - 0x8000000000000000"
  shows "sint (- x) = - sint x"
proof -
  have lo: "- (2 ^ 63) \<le> sint x" and hi: "sint x < 2 ^ 63"
    using sint_ge[of x] sint_lt[of x] by simp_all
  have "sint x \<noteq> - (2 ^ 63)"
  proof
    assume "sint x = - (2 ^ 63)"
    then have "word_of_int (sint x) = (word_of_int (- (2 ^ 63)) :: int64)" by simp
    then have "x = - 0x8000000000000000" by simp
    then show False using assms by simp
  qed
  then have "- (2 ^ 63) \<le> - sint x \<and> - sint x < 2 ^ 63" using lo hi by simp
  then show ?thesis
    by (simp add: sint_word_ariths signed_take_bit_int_eq_self)
qed

lemma Seek_Current_before_start:
  assumes "sint offset < 0" "offset \<noteq> - 0x8000000000000000"
    and "- sint offset > int (length (prev c))"
  shows "Seek c offset SeekCurrent = (Inl BeforeStart, c)"
  using assms by (simp add: Seek_Current sint_minus_int64)

section \<open>Alloc\<close>

lemma scan_index:
  assumes "i * 128 + j < 2 ^ 32" "j < 128"
  shows "unat ((of_nat j :: uint32) + of_nat i * 128) = i * 128 + j"
    and "((of_nat j :: uint32) + of_nat i * 128) div 128 = of_nat i"
    and "unat (((of_nat j :: uint32) + of_nat i * 128) mod 128) = j"
proof -
  let ?c = "(of_nat j :: uint32) + of_nat i * 128"
  have "word_of_nat (i * 128 + j) = ?c" by simp
  from of_nat_inverse[OF this] assms(1)
  show u: "unat ?c = i * 128 + j" by simp
  have i: "i < 2 ^ 32" using assms(1) by simp
  have "unat (?c div 128) = i" using u assms(2) by (simp add: unat_div)
  moreover have "unat (of_nat i :: uint32) = i"
    using of_nat_inverse[of i "of_nat i :: uint32"] i by simp
  ultimately show "?c div 128 = of_nat i" by (simp add: word_unat_eq_iff)
  show "unat (?c mod 128) = j" using u assms(2) by (simp add: unat_mod)
qed

lemma fat_entry_value:
  "fatSectors f = fat0 # rest \<Longrightarrow>
   fat_entry f k =
     Inr (Uint32 (store (Device f) (fat0 + k div 128)) (unat (k mod 128) * 4) AND 0x0fffffff)"
  using ReadFAT_value[of "no_faults f" fat0 rest k]
  by (simp add: fat_entry_def no_faults_def next_ok_def fatIndices_def)

lemma free_slot_cong:
  "store (Device f') = store (Device f) \<Longrightarrow> fatSectors f' = fatSectors f \<Longrightarrow>
   BootSector f' = BootSector f \<Longrightarrow> free_slot f' c = free_slot f c"
  using fat_entry_cong[of f' f c] by (simp add: free_slot_def NumClusters_def)

lemma free_slot_scan:
  assumes nc: "NumClusters f = Inr nc"
    and i: "i < unat (FatSz32 (BootSector f))"
    and sz: "unat (FatSz32 (BootSector f)) * 128 \<le> 2 ^ 32"
    and fs: "fatSectors f = fat0 # rest"
    and j: "j < 128"
  shows "free_slot f (of_nat j + of_nat i * 128) \<longleftrightarrow>
           2 \<le> (of_nat j + of_nat i * 128 :: uint32) \<and> (of_nat j + of_nat i * 128 :: uint32) < nc
           \<and> Uint32 (store (Device f) (of_nat i + fat0)) (j * 4) AND 0x0fffffff = 0"
proof -
  have "(i + 1) * 128 \<le> unat (FatSz32 (BootSector f)) * 128"
    using i by (intro mult_le_mono1) simp
  then have b: "i * 128 + j < unat (FatSz32 (BootSector f)) * 128" using j by simp
  then have b32: "i * 128 + j < 2 ^ 32" using sz by simp
  note si = scan_index[OF b32 j]
  show ?thesis
    using b by (simp add: free_slot_def nc fat_entry_value[OF fs] si add.commute)
qed

lemma Alloc_sector_find:
  assumes nc: "NumClusters f = Inr nc"
    and i: "i < unat (FatSz32 (BootSector f))"
    and sz: "unat (FatSz32 (BootSector f)) * 128 \<le> 2 ^ 32"
    and fs: "fatSectors f = fat0 # rest"
  shows "j \<le> 128 \<Longrightarrow>
         Alloc_sector f (store (Device f) (of_nat i + fat0)) i j =
           (case find (\<lambda>j'. free_slot f (of_nat j' + of_nat i * 128)) [j..<128] of
              None \<Rightarrow> None
            | Some j' \<Rightarrow> Some (Alloc_mark f (of_nat j' + of_nat i * 128)))"
proof (induction "128 - j" arbitrary: j)
  case 0
  then have "j = 128" by simp
  then show ?case by (subst Alloc_sector.simps) simp
next
  case (Suc n)
  then have j: "j < 128" by simp
  have up: "[j..<128] = j # [j + 1..<128]" using j by (simp add: upt_conv_Cons)
  have IH: "Alloc_sector f (store (Device f) (of_nat i + fat0)) i (j + 1) =
           (case find (\<lambda>j'. free_slot f (of_nat j' + of_nat i * 128)) [j + 1..<128] of
              None \<Rightarrow> None
            | Some j' \<Rightarrow> Some (Alloc_mark f (of_nat j' + of_nat i * 128)))"
    using Suc.hyps(1)[of "j + 1"] Suc.hyps(2) j by simp
  note fsl = free_slot_scan[OF nc i sz fs j]
  show ?case
    apply (subst Alloc_sector.simps)
    using j fsl IH
    apply (simp add: up nc Let_def Alloc_mark_def not_le del: upt_Suc)
    apply (auto simp: not_less)
    done
qed


lemma find_upt_None:
  "find P [0..<n] = None \<Longrightarrow> j < n \<Longrightarrow> \<not> P j"
  by (auto simp: find_None_iff)

lemma find_upt_Some:
  assumes "find P [0..<n] = Some j"
  shows "j < n \<and> P j \<and> (\<forall>j' < j. \<not> P j')"
proof -
  from assms obtain i where i: "i < length [0..<n]" "P ([0..<n] ! i)" "j = [0..<n] ! i"
    "\<forall>k < i. \<not> P ([0..<n] ! k)"
    unfolding find_Some_iff by blast
  then have "j = i" "i < n" by simp_all
  with i show ?thesis by auto
qed

lemma Alloc_loop_step:
  assumes nc: "NumClusters f = Inr nc"
    and sz: "unat (FatSz32 (BootSector f)) * 128 \<le> 2 ^ 32"
    and fs: "fatSectors f = fat0 # rest"
    and i: "i < unat (FatSz32 (BootSector f))"
  shows "Alloc_loop f i =
     (case ReadSector (Device f) (of_nat i + fat0) of
        (Inl e, d) \<Rightarrow> (Inl e, f\<lparr>Device := d\<rparr>)
      | (Inr block, d) \<Rightarrow>
          (case find (\<lambda>j'. free_slot f (of_nat j' + of_nat i * 128)) [0..<128] of
             None \<Rightarrow> Alloc_loop (f\<lparr>Device := d\<rparr>) (i + 1)
           | Some j' \<Rightarrow> Alloc_mark (f\<lparr>Device := d\<rparr>) (of_nat j' + of_nat i * 128)))"
proof -
  obtain rr d where r: "ReadSector (Device f) (of_nat i + fat0) = (rr, d)"
    by (cases "ReadSector (Device f) (of_nat i + fat0)")
  show ?thesis
  proof (cases rr)
    case (Inl e)
    then show ?thesis using r i fs by (subst Alloc_loop.simps) simp
  next
    case (Inr block)
    let ?f1 = "f\<lparr>Device := d\<rparr>"
    have st: "store d = store (Device f)" using ReadSector_store[OF r] .
    have blk: "block = store (Device ?f1) (of_nat i + fat0)"
      using ReadSector_Inr[OF r[unfolded Inr]] st by simp
    have nc1: "NumClusters ?f1 = Inr nc" using nc by (simp add: NumClusters_def)
    have fsl: "\<And>c. free_slot ?f1 c = free_slot f c"
      using st by (intro free_slot_cong) simp_all
    have "Alloc_sector ?f1 block i 0 =
           (case find (\<lambda>j'. free_slot ?f1 (of_nat j' + of_nat i * 128)) [0..<128] of
              None \<Rightarrow> None
            | Some j' \<Rightarrow> Some (Alloc_mark ?f1 (of_nat j' + of_nat i * 128)))"
      unfolding blk using Alloc_sector_find[of ?f1 nc i fat0 rest 0] nc1 sz fs i by simp
    then show ?thesis
      using r Inr i fs by (subst Alloc_loop.simps) (simp add: fsl split: option.splits)
  qed
qed

lemma scan_cover:
  fixes c :: uint32
  assumes "i * 128 \<le> unat c" "unat c < (i + 1) * 128"
  shows "c = of_nat (unat c - i * 128) + of_nat i * 128" "unat c - i * 128 < 128"
proof -
  have "(of_nat (unat c - i * 128) + of_nat i * 128 :: uint32) = of_nat (unat c - i * 128 + i * 128)"
    by simp
  also have "\<dots> = c" using assms(1) by simp
  finally show "c = of_nat (unat c - i * 128) + of_nat i * 128" by simp
  show "unat c - i * 128 < 128" using assms by simp
qed

text \<open>A successful scan returns the first free slot, marked by \<open>WriteFAT\<close>.\<close>

lemma Alloc_loop_Inr:
  assumes nc: "NumClusters f = Inr nc"
    and sz: "unat (FatSz32 (BootSector f)) * 128 \<le> 2 ^ 32"
    and fs: "fatSectors f = fat0 # rest"
    and inv: "\<forall>c. free_slot f c \<longrightarrow> i * 128 \<le> unat c"
    and res: "Alloc_loop f i = (Inr c, f')"
  shows "free_slot f c \<and> (\<forall>c'. c' < c \<longrightarrow> \<not> free_slot f c')
         \<and> (\<exists>fm. store (Device fm) = store (Device f) \<and> fatSectors fm = fatSectors f
                 \<and> BootSector fm = BootSector f \<and> WriteFAT fm c EOF = (Inr (), f'))"
  using assms
proof (induction "unat (FatSz32 (BootSector f)) - i" arbitrary: f i)
  case 0
  then have "\<not> i < unat (FatSz32 (BootSector f))" by simp
  then have "Alloc_loop f i = (Inl NoFreeClusters, f)" by (subst Alloc_loop.simps) simp
  with "0.prems" show ?case by simp
next
  case (Suc n)
  then have i: "i < unat (FatSz32 (BootSector f))" by simp
  note step = Alloc_loop_step[OF Suc.prems(1,2,3) i]
  obtain rr d where r: "ReadSector (Device f) (of_nat i + fat0) = (rr, d)"
    by (cases "ReadSector (Device f) (of_nat i + fat0)")
  from Suc.prems(5) step r obtain block where rr: "rr = Inr block"
    by (cases rr) auto
  let ?f1 = "f\<lparr>Device := d\<rparr>"
  let ?P = "\<lambda>j'. free_slot f (of_nat j' + of_nat i * 128)"
  have st: "store d = store (Device f)" using ReadSector_store[OF r] .
  have fsl: "\<And>c. free_slot ?f1 c = free_slot f c"
    using st by (intro free_slot_cong) simp_all
  show ?case
  proof (cases "find ?P [0..<128]")
    case None
    then have res1: "Alloc_loop ?f1 (i + 1) = (Inr c, f')"
      using Suc.prems(5) step r rr by simp
    have inv1: "\<forall>c. free_slot ?f1 c \<longrightarrow> (i + 1) * 128 \<le> unat c"
    proof (intro allI impI)
      fix c assume fc: "free_slot ?f1 c"
      then have f0: "free_slot f c" by (simp add: fsl)
      then have lo: "i * 128 \<le> unat c" using Suc.prems(4) by simp
      show "(i + 1) * 128 \<le> unat c"
      proof (rule ccontr)
        assume "\<not> (i + 1) * 128 \<le> unat c"
        then have hi: "unat c < (i + 1) * 128" by simp
        from scan_cover[OF lo hi] find_upt_None[OF None, of "unat c - i * 128"] f0
        show False by simp
      qed
    qed
    have nc1: "NumClusters ?f1 = Inr nc" using Suc.prems(1) by (simp add: NumClusters_def)
    have "n = unat (FatSz32 (BootSector ?f1)) - (i + 1)" using Suc.hyps(2) by simp
    from Suc.hyps(1)[OF this nc1 _ _ inv1 res1] Suc.prems(2,3)
    show ?thesis using st by (simp add: fsl)
  next
    case (Some j)
    let ?c = "of_nat j + of_nat i * 128 :: uint32"
    note fj = find_upt_Some[OF Some]
    have mark: "Alloc_mark ?f1 ?c = (Inr c, f')"
      using Suc.prems(5) step r rr Some by simp
    then have c: "c = ?c" and w: "WriteFAT ?f1 c EOF = (Inr (), f')"
      by (auto simp: Alloc_mark_def split: prod.splits sum.splits)
    have b32: "i * 128 + j < 2 ^ 32"
    proof -
      have "(i + 1) * 128 \<le> unat (FatSz32 (BootSector f)) * 128"
        using i by (intro mult_le_mono1) simp
      then show ?thesis using fj Suc.prems(2) by simp
    qed
    have uc: "unat c = i * 128 + j" using scan_index(1)[OF b32] fj c by simp
    have first: "\<forall>c'. c' < c \<longrightarrow> \<not> free_slot f c'"
    proof (intro allI impI notI)
      fix c' assume lt: "c' < c" and f': "free_slot f c'"
      then have lo: "i * 128 \<le> unat c'" using Suc.prems(4) by simp
      have hi: "unat c' < i * 128 + j" using lt uc by (simp add: word_less_nat_alt)
      then have hi': "unat c' < (i + 1) * 128" using fj by simp
      have "unat c' - i * 128 < j" using lo hi by simp
      with fj have "\<not> ?P (unat c' - i * 128)" by simp
      with scan_cover(1)[OF lo hi'] f' show False by simp
    qed
    show ?thesis
      using fj c first w st by (intro conjI exI[of _ ?f1]) simp_all
  qed
qed


text \<open>Without a free slot the scan writes nothing and ends in an error.\<close>

lemma Alloc_loop_none:
  assumes nc: "NumClusters f = Inr nc"
    and sz: "unat (FatSz32 (BootSector f)) * 128 \<le> 2 ^ 32"
    and fs: "fatSectors f = fat0 # rest"
    and none: "\<forall>c. \<not> free_slot f c"
  shows "\<exists>e f'. Alloc_loop f i = (Inl e, f') \<and> (e = NoFreeClusters \<or> e = DeviceIO)
           \<and> store (Device f') = store (Device f)
           \<and> (faults (Device f) = [] \<longrightarrow> e = NoFreeClusters)"
  using assms
proof (induction "unat (FatSz32 (BootSector f)) - i" arbitrary: f i)
  case 0
  then have "\<not> i < unat (FatSz32 (BootSector f))" by simp
  then have "Alloc_loop f i = (Inl NoFreeClusters, f)" by (subst Alloc_loop.simps) simp
  then show ?case by simp
next
  case (Suc n)
  then have i: "i < unat (FatSz32 (BootSector f))" by simp
  note step = Alloc_loop_step[OF Suc.prems(1,2,3) i]
  obtain rr d where r: "ReadSector (Device f) (of_nat i + fat0) = (rr, d)"
    by (cases "ReadSector (Device f) (of_nat i + fat0)")
  have st: "store d = store (Device f)" using ReadSector_store[OF r] .
  let ?f1 = "f\<lparr>Device := d\<rparr>"
  show ?case
  proof (cases rr)
    case (Inl e)
    have "e = DeviceIO" using ReadSector_Inl r Inl by blast
    moreover have "faults (Device f) \<noteq> []"
      using r Inl by (auto simp: ReadSector_def next_fault_def split: list.splits)
    ultimately show ?thesis using step r Inl st by simp
  next
    case (Inr block)
    have fsl: "\<And>c. free_slot ?f1 c = free_slot f c"
      using st by (intro free_slot_cong) simp_all
    have fnd: "find (\<lambda>j'. free_slot f (of_nat j' + of_nat i * 128)) [0..<128] = None"
      using Suc.prems(4) by (simp add: find_None_iff)
    have nc1: "NumClusters ?f1 = Inr nc" using Suc.prems(1) by (simp add: NumClusters_def)
    have n: "n = unat (FatSz32 (BootSector ?f1)) - (i + 1)" using Suc.hyps(2) by simp
    have none1: "\<forall>c. \<not> free_slot ?f1 c" using Suc.prems(4) by (simp add: fsl)
    have fl: "faults (Device f) = [] \<Longrightarrow> faults d = []"
      using r by (auto simp: ReadSector_def next_fault_def split: list.splits)
    have sz1: "unat (FatSz32 (BootSector ?f1)) * 128 \<le> 2 ^ 32" using Suc.prems(2) by simp
    have fs1: "fatSectors ?f1 = fat0 # rest" using Suc.prems(3) by simp
    from Suc.hyps(1)[OF n nc1 sz1 fs1 none1]
    show ?thesis using step r Inr fnd st fl by auto
  qed
qed

lemma ReadSector_no_faults: "faults d = [] \<Longrightarrow> ReadSector d l = (Inr (store d l), d)"
  by (simp add: ReadSector_def next_fault_def)

lemma WriteSector_no_faults:
  "faults d = [] \<Longrightarrow> WriteSector d l s = (Inr (), d\<lparr>store := (store d)(l := s)\<rparr>)"
  by (simp add: WriteSector_def next_fault_def)

lemma WriteFAT_loop_no_faults:
  "faults d = [] \<Longrightarrow> \<exists>d'. WriteFAT_loop d s bi v offs = (Inr (), d') \<and> faults d' = []"
  by (induction offs arbitrary: d)
     (simp_all add: ReadSector_no_faults WriteSector_no_faults Let_def)

lemma WriteFAT_no_faults:
  "faults (Device f) = [] \<Longrightarrow>
   \<exists>f'. WriteFAT f k v = (Inr (), f') \<and> faults (Device f') = []"
  using WriteFAT_loop_no_faults[of "Device f" "fst (fatIndices k)" "snd (fatIndices k)" v "fatSectors f"]
  by (auto simp: WriteFAT_def split: prod.splits)

text \<open>On a device without faults the scan finds a free slot if there is one.\<close>

lemma Alloc_loop_some:
  assumes nc: "NumClusters f = Inr nc"
    and sz: "unat (FatSz32 (BootSector f)) * 128 \<le> 2 ^ 32"
    and fs: "fatSectors f = fat0 # rest"
    and nf: "faults (Device f) = []"
    and ex: "free_slot f c0" "i * 128 \<le> unat c0"
  shows "\<exists>c f'. Alloc_loop f i = (Inr c, f')"
  using assms
proof (induction "unat (FatSz32 (BootSector f)) - i" arbitrary: f i)
  case 0
  then have "unat (FatSz32 (BootSector f)) * 128 \<le> i * 128" by simp
  moreover have "unat c0 < unat (FatSz32 (BootSector f)) * 128"
    using "0.prems"(5) by (simp add: free_slot_def)
  ultimately show ?case using "0.prems"(6) by simp
next
  case (Suc n)
  then have i: "i < unat (FatSz32 (BootSector f))" by simp
  note step = Alloc_loop_step[OF Suc.prems(1,2,3) i]
  note r = ReadSector_no_faults[OF Suc.prems(4), of "of_nat i + fat0"]
  have f1: "f\<lparr>Device := Device f\<rparr> = f" by simp
  let ?P = "\<lambda>j'. free_slot f (of_nat j' + of_nat i * 128)"
  show ?case
  proof (cases "find ?P [0..<128]")
    case None
    have lo: "(i + 1) * 128 \<le> unat c0"
    proof (rule ccontr)
      assume "\<not> (i + 1) * 128 \<le> unat c0"
      then have hi: "unat c0 < (i + 1) * 128" by simp
      from scan_cover[OF Suc.prems(6) hi] find_upt_None[OF None, of "unat c0 - i * 128"]
        Suc.prems(5)
      show False by simp
    qed
    have n: "n = unat (FatSz32 (BootSector f)) - (i + 1)" using Suc.hyps(2) by simp
    from Suc.hyps(1)[OF n Suc.prems(1,2,3,4,5) lo]
    show ?thesis using step r None by (simp add: f1)
  next
    case (Some j)
    obtain f' where "WriteFAT f (of_nat j + of_nat i * 128) EOF = (Inr (), f')"
      using WriteFAT_no_faults[OF Suc.prems(4)] by blast
    then show ?thesis using step r Some by (simp add: f1 Alloc_mark_def)
  qed
qed

lemma WriteFAT_fat_entry:
  assumes wf: "wf_device (Device f)"
    and fats: "fatSectors f \<noteq> []"
    and w: "WriteFAT f k v = (Inr u, f')"
  shows "fat_entry f' k = Inr (v AND 0x0FFFFFFF)"
proof -
  obtain fat0 rest where fs: "fatSectors f = fat0 # rest"
    using fats by (cases "fatSectors f") auto
  let ?s = "fst (fatIndices k)" and ?bi = "snd (fatIndices k)"
  let ?st = "patch_store ?s ?bi v fat0 (store (Device f))"
  have len: "\<forall>l. length (store (Device f) l) = SectorSize"
    using wf by (simp add: wf_device_def)
  have 1: "\<forall>l. length (?st l) = SectorSize"
    using len by (simp add: patch_store_def length_fat_patch)
  have 2: "Uint32 (?st (fat0 + ?s)) ?bi AND 0x0fffffff = v AND 0x0fffffff"
    using len fatIndices_bound[of k] by (simp add: patch_store_def fat_patch_low add.commute)
  have "store (Device f') = fold (patch_store ?s ?bi v) rest ?st"
    using WriteFAT_store[OF w] fs by simp
  then have "Uint32 (store (Device f') (fat0 + ?s)) ?bi AND 0x0fffffff = v AND 0x0fffffff"
    using fold_patch_low[OF 1 fatIndices_bound 2] by simp
  moreover have "fatSectors f' = fat0 # rest"
    using WriteFAT_fields[OF w] fs by simp
  ultimately show ?thesis
    by (simp add: fat_entry_value fatIndices_def)
qed

lemma EOF_masked: "EOF AND 0x0FFFFFFF = EOF"
  by (simp add: EOF_def)

text \<open>
  Claim C5. On a file system with at least one FAT copy, a non-zero \<open>SecPerClus\<close> and a
  FAT of at most \<open>2 ^ 32\<close> entries (so that the 32-bit index \<open>uint32(j) + i*128\<close> does
  not wrap): a cluster that \<open>Alloc\<close> returns is a free slot (at least 2, below
  \<open>NumClusters\<close>, among the \<open>FatSz32 * 128\<close> scanned entries, with link 0), no smaller
  index is a free cluster, and its entry reads EOF afterwards; without a free slot
  \<open>Alloc\<close> fails, with the no-free-clusters error or the I/O error of a failed read, and
  leaves the store as it was; and on a device that does not fail \<open>Alloc\<close> returns a cluster
  whenever there is a free slot and the no-free-clusters error otherwise.
\<close>

theorem Alloc_first_fit:
  assumes wfd: "wf_device (Device f)"
    and fats: "fatSectors f \<noteq> []"
    and spc: "SecPerClus (BootSector f) \<noteq> 0"
    and sz: "unat (FatSz32 (BootSector f)) * 128 \<le> 2 ^ 32"
  shows "(\<forall>c f'. Alloc f = (Inr c, f') \<longrightarrow>
            free_slot f c \<and> (\<forall>c'. c' < c \<longrightarrow> \<not> free_cluster f c')
            \<and> fat_entry f' c = Inr EOF)
       \<and> ((\<forall>c. \<not> free_slot f c) \<longrightarrow>
            (\<exists>e f'. Alloc f = (Inl e, f') \<and> (e = NoFreeClusters \<or> e = DeviceIO)
               \<and> store (Device f') = store (Device f)))
       \<and> (faults (Device f) = [] \<longrightarrow>
            (if \<exists>c. free_slot f c then \<exists>c f'. Alloc f = (Inr c, f')
             else fst (Alloc f) = Inl NoFreeClusters))"
proof -
  obtain fat0 rest where fs: "fatSectors f = fat0 # rest"
    using fats by (cases "fatSectors f") auto
  obtain nc where nc: "NumClusters f = Inr nc"
    using spc by (simp add: NumClusters_def Let_def)
  have a: "\<forall>c f'. Alloc f = (Inr c, f') \<longrightarrow>
            free_slot f c \<and> (\<forall>c'. c' < c \<longrightarrow> \<not> free_cluster f c')
            \<and> fat_entry f' c = Inr EOF"
  proof (intro allI impI)
    fix c f' assume "Alloc f = (Inr c, f')"
    then have res: "Alloc_loop f 0 = (Inr c, f')" by (simp add: Alloc_def)
    have inv: "\<forall>c. free_slot f c \<longrightarrow> 0 * 128 \<le> unat c" by simp
    from Alloc_loop_Inr[OF nc sz fs inv res] obtain fm where
      fc: "free_slot f c" and first: "\<forall>c'. c' < c \<longrightarrow> \<not> free_slot f c'"
      and fm: "store (Device fm) = store (Device f)" "fatSectors fm = fatSectors f"
        "WriteFAT fm c EOF = (Inr (), f')"
      by blast
    have "wf_device (Device fm)" using wfd fm(1) by (simp add: wf_device_def)
    from WriteFAT_fat_entry[OF this _ fm(3)] fm(2) fats
    have e: "fat_entry f' c = Inr EOF" by (simp add: EOF_masked)
    have "\<forall>c'. c' < c \<longrightarrow> \<not> free_cluster f c'"
    proof (intro allI impI notI)
      fix c' assume lt: "c' < c" and f': "free_cluster f c'"
      have "unat c' < unat c" using lt by (simp add: word_less_nat_alt)
      then have "unat c' < unat (FatSz32 (BootSector f)) * 128"
        using fc by (simp add: free_slot_def)
      then have "free_slot f c'" using f' by (simp add: free_slot_def free_cluster_def)
      with first lt show False by simp
    qed
    with fc e show "free_slot f c \<and> (\<forall>c'. c' < c \<longrightarrow> \<not> free_cluster f c')
            \<and> fat_entry f' c = Inr EOF" by simp
  qed
  have b: "(\<forall>c. \<not> free_slot f c) \<longrightarrow>
            (\<exists>e f'. Alloc f = (Inl e, f') \<and> (e = NoFreeClusters \<or> e = DeviceIO)
               \<and> store (Device f') = store (Device f))"
    using Alloc_loop_none[OF nc sz fs, of 0] by (auto simp: Alloc_def)
  have c: "faults (Device f) = [] \<longrightarrow>
            (if \<exists>c. free_slot f c then \<exists>c f'. Alloc f = (Inr c, f')
             else fst (Alloc f) = Inl NoFreeClusters)"
  proof (intro impI)
    assume nf: "faults (Device f) = []"
    show "if \<exists>c. free_slot f c then \<exists>c f'. Alloc f = (Inr c, f')
             else fst (Alloc f) = Inl NoFreeClusters"
    proof (cases "\<exists>c. free_slot f c")
      case True
      then obtain c0 where "free_slot f c0" by blast
      from Alloc_loop_some[OF nc sz fs nf this, of 0] True
      show ?thesis by (simp add: Alloc_def)
    next
      case False
      then have "\<forall>c. \<not> free_slot f c" by simp
      from Alloc_loop_none[OF nc sz fs this, of 0] nf False
      show ?thesis by (auto simp: Alloc_def)
    qed
  qed
  from a b c show ?thesis by blast
qed

lemma NumClusters_example: "BootSector f = example_bs \<Longrightarrow> NumClusters f = Inr 1986"
  by (simp add: NumClusters_def example_bs_fields)

lemma Alloc_sector_zero:
  "BootSector f = example_bs \<Longrightarrow>
   Alloc_sector f (replicate 512 0) 0 0 = Some (Alloc_mark f 2)"
  apply (subst Alloc_sector.simps, simp)
  apply (subst Alloc_sector.simps, simp)
  apply (subst Alloc_sector.simps, simp add: NumClusters_example Uint32_def Alloc_mark_def)
  done

lemma Alloc_blank: "Alloc blank_fs = Alloc_mark blank_fs 2"
proof -
  have r: "ReadSector (Device blank_fs) 32 = (Inr (replicate 512 0), Device blank_fs)"
    by (simp add: blank_fs_def blank_device_def device_defs)
  have b: "BootSector blank_fs = example_bs" "fatSectors blank_fs = [32, 48]"
    by (simp_all add: blank_fs_def)
  show ?thesis
    unfolding Alloc_def
    by (subst Alloc_loop.simps) (simp add: r b example_bs_fields Alloc_sector_zero)
qed

lemma Alloc_mark_blank: "fst (Alloc_mark blank_fs 2) = Inr 2"
  by (simp add: Alloc_mark_def WriteFAT_def fatIndices_def blank_defs device_defs)

theorem Alloc_first_fit_witness:
  "wf_device (Device blank_fs) \<and> fatSectors blank_fs \<noteq> []
   \<and> SecPerClus (BootSector blank_fs) \<noteq> 0
   \<and> unat (FatSz32 (BootSector blank_fs)) * 128 \<le> 2 ^ 32
   \<and> fst (Alloc blank_fs) = Inr 2
   \<and> free_slot blank_fs 2
   \<and> fat_entry (snd (Alloc blank_fs)) 2 = Inr EOF"
proof -
  have fats: "fatSectors blank_fs \<noteq> []" by (simp add: blank_fs_def)
  have spc: "SecPerClus (BootSector blank_fs) \<noteq> 0"
    by (simp add: blank_fs_def example_bs_fields)
  have sz: "unat (FatSz32 (BootSector blank_fs)) * 128 \<le> 2 ^ 32"
    by (simp add: blank_fs_def example_bs_fields)
  have al: "Alloc blank_fs = (Inr 2, snd (Alloc blank_fs))"
    using Alloc_mark_blank by (cases "Alloc blank_fs") (simp add: Alloc_blank)
  have "free_slot blank_fs 2 \<and> fat_entry (snd (Alloc blank_fs)) 2 = Inr EOF"
    using Alloc_first_fit[OF wf_blank fats spc sz] al by blast
  moreover have "fst (Alloc blank_fs) = Inr 2"
    using Alloc_mark_blank by (simp add: Alloc_blank)
  ultimately show ?thesis
    using wf_blank fats spc sz by simp
qed

section \<open>Alloc on a failing device\<close>

lemma WriteFAT_loop_Inl:
  "WriteFAT_loop d s bi v offs = (Inl e, d') \<Longrightarrow>
   \<exists>pre suf. offs = pre @ suf \<and> suf \<noteq> []
     \<and> store d' = fold (patch_store s bi v) pre (store d)"
proof (induction offs arbitrary: d)
  case Nil
  then show ?case by simp
next
  case (Cons off offs)
  obtain rr d1 where r: "ReadSector d (s + off) = (rr, d1)"
    by (cases "ReadSector d (s + off)")
  show ?case
  proof (cases rr)
    case (Inl e1)
    then have "store d' = store d" using Cons.prems r ReadSector_store[OF r] by simp
    then show ?thesis by (intro exI[of _ "[]"] exI[of _ "off # offs"]) simp
  next
    case (Inr block)
    obtain wr d2 where w: "WriteSector d1 (s + off) (fat_patch block bi v) = (wr, d2)"
      by (cases "WriteSector d1 (s + off) (fat_patch block bi v)")
    show ?thesis
    proof (cases wr)
      case (Inl e2)
      then have "store d' = store d"
        using Cons.prems r Inr w WriteSector_Inl[OF w[unfolded Inl]] ReadSector_store[OF r]
        by (simp add: fat_patch_def Let_def)
      then show ?thesis by (intro exI[of _ "[]"] exI[of _ "off # offs"]) simp
    next
      case (Inr u)
      have l: "WriteFAT_loop d2 s bi v offs = (Inl e, d')"
        using Cons.prems r \<open>rr = Inr block\<close> w Inr by (simp add: fat_patch_def Let_def)
      have st: "store d2 = patch_store s bi v off (store d)"
        using ReadSector_store[OF r] ReadSector_Inr[OF r[unfolded \<open>rr = Inr block\<close>]]
          WriteSector_Inr[OF w[unfolded Inr]]
        by (simp add: patch_store_def)
      from Cons.IH[OF l] obtain pre suf where
        "offs = pre @ suf" "suf \<noteq> []" "store d' = fold (patch_store s bi v) pre (store d2)"
        by blast
      then show ?thesis
        using st by (intro exI[of _ "off # pre"] exI[of _ suf]) simp
    qed
  qed
qed

lemma WriteFAT_Inl:
  assumes wf: "wf_device (Device f)"
    and w: "WriteFAT f k v = (Inl e, f')"
  shows "store (Device f') = store (Device f)
         \<or> (2 \<le> length (fatSectors f) \<and> fat_entry f' k = Inr (v AND 0x0FFFFFFF))"
proof -
  let ?s = "fst (fatIndices k)" and ?bi = "snd (fatIndices k)"
  obtain d' where l: "WriteFAT_loop (Device f) ?s ?bi v (fatSectors f) = (Inl e, d')"
    and f': "f' = f\<lparr>Device := d'\<rparr>"
    using w by (auto simp: WriteFAT_def split: prod.splits)
  from WriteFAT_loop_Inl[OF l] obtain pre suf where
    ps: "fatSectors f = pre @ suf" "suf \<noteq> []"
      "store d' = fold (patch_store ?s ?bi v) pre (store (Device f))"
    by blast
  show ?thesis
  proof (cases pre)
    case Nil
    then show ?thesis using ps f' by simp
  next
    case (Cons fat0 rest)
    let ?st = "patch_store ?s ?bi v fat0 (store (Device f))"
    have len: "\<forall>l. length (store (Device f) l) = SectorSize"
      using wf by (simp add: wf_device_def)
    have 1: "\<forall>l. length (?st l) = SectorSize"
      using len by (simp add: patch_store_def length_fat_patch)
    have 2: "Uint32 (?st (fat0 + ?s)) ?bi AND 0x0fffffff = v AND 0x0fffffff"
      using len fatIndices_bound[of k] by (simp add: patch_store_def fat_patch_low add.commute)
    have "store (Device f') = fold (patch_store ?s ?bi v) rest ?st"
      using ps Cons f' by simp
    then have "Uint32 (store (Device f') (fat0 + ?s)) ?bi AND 0x0fffffff = v AND 0x0fffffff"
      using fold_patch_low[OF 1 fatIndices_bound 2] by simp
    moreover have "fatSectors f' = fat0 # rest @ suf" using ps Cons f' by simp
    ultimately have "fat_entry f' k = Inr (v AND 0x0FFFFFFF)"
      by (simp add: fat_entry_value fatIndices_def)
    moreover have "2 \<le> length (fatSectors f)"
      using ps Cons by (cases suf) simp_all
    ultimately show ?thesis by simp
  qed
qed

lemma Alloc_loop_Inl:
  assumes nc: "NumClusters f = Inr nc"
    and sz: "unat (FatSz32 (BootSector f)) * 128 \<le> 2 ^ 32"
    and fs: "fatSectors f = fat0 # rest"
    and inv: "\<forall>c. free_slot f c \<longrightarrow> i * 128 \<le> unat c"
    and res: "Alloc_loop f i = (Inl e, f')"
  shows "store (Device f') = store (Device f)
         \<or> (\<exists>c fm. free_slot f c \<and> (\<forall>c'. c' < c \<longrightarrow> \<not> free_slot f c')
                 \<and> store (Device fm) = store (Device f) \<and> fatSectors fm = fatSectors f
                 \<and> BootSector fm = BootSector f \<and> WriteFAT fm c EOF = (Inl e, f'))"
  using assms
proof (induction "unat (FatSz32 (BootSector f)) - i" arbitrary: f i)
  case 0
  then have "\<not> i < unat (FatSz32 (BootSector f))" by simp
  then have "Alloc_loop f i = (Inl NoFreeClusters, f)" by (subst Alloc_loop.simps) simp
  with "0.prems" show ?case by simp
next
  case (Suc n)
  then have i: "i < unat (FatSz32 (BootSector f))" by simp
  note step = Alloc_loop_step[OF Suc.prems(1,2,3) i]
  obtain rr d where r: "ReadSector (Device f) (of_nat i + fat0) = (rr, d)"
    by (cases "ReadSector (Device f) (of_nat i + fat0)")
  let ?f1 = "f\<lparr>Device := d\<rparr>"
  let ?P = "\<lambda>j'. free_slot f (of_nat j' + of_nat i * 128)"
  have st: "store d = store (Device f)" using ReadSector_store[OF r] .
  have fsl: "\<And>c. free_slot ?f1 c = free_slot f c"
    using st by (intro free_slot_cong) simp_all
  show ?case
  proof (cases rr)
    case (Inl e1)
    then show ?thesis using Suc.prems(5) step r st by auto
  next
    case (Inr block)
    show ?thesis
    proof (cases "find ?P [0..<128]")
      case None
      then have res1: "Alloc_loop ?f1 (i + 1) = (Inl e, f')"
        using Suc.prems(5) step r Inr by simp
      have inv1: "\<forall>c. free_slot ?f1 c \<longrightarrow> (i + 1) * 128 \<le> unat c"
      proof (intro allI impI)
        fix c assume fc: "free_slot ?f1 c"
        then have f0: "free_slot f c" by (simp add: fsl)
        then have lo: "i * 128 \<le> unat c" using Suc.prems(4) by simp
        show "(i + 1) * 128 \<le> unat c"
        proof (rule ccontr)
          assume "\<not> (i + 1) * 128 \<le> unat c"
          then have hi: "unat c < (i + 1) * 128" by simp
          from scan_cover[OF lo hi] find_upt_None[OF None, of "unat c - i * 128"] f0
          show False by simp
        qed
      qed
      have nc1: "NumClusters ?f1 = Inr nc" using Suc.prems(1) by (simp add: NumClusters_def)
      have sz1: "unat (FatSz32 (BootSector ?f1)) * 128 \<le> 2 ^ 32" using Suc.prems(2) by simp
      have fs1: "fatSectors ?f1 = fat0 # rest" using Suc.prems(3) by simp
      have "n = unat (FatSz32 (BootSector ?f1)) - (i + 1)" using Suc.hyps(2) by simp
      from Suc.hyps(1)[OF this nc1 sz1 fs1 inv1 res1]
      show ?thesis using st by (simp add: fsl)
    next
      case (Some j)
      let ?c = "of_nat j + of_nat i * 128 :: uint32"
      note fj = find_upt_Some[OF Some]
      have mark: "Alloc_mark ?f1 ?c = (Inl e, f')"
        using Suc.prems(5) step r Inr Some by simp
      then have w: "WriteFAT ?f1 ?c EOF = (Inl e, f')"
        by (auto simp: Alloc_mark_def split: prod.splits sum.splits)
      have b32: "i * 128 + j < 2 ^ 32"
      proof -
        have "(i + 1) * 128 \<le> unat (FatSz32 (BootSector f)) * 128"
          using i by (intro mult_le_mono1) simp
        then show ?thesis using fj Suc.prems(2) by simp
      qed
      have uc: "unat ?c = i * 128 + j" using scan_index(1)[OF b32] fj by simp
      have first: "\<forall>c'. c' < ?c \<longrightarrow> \<not> free_slot f c'"
      proof (intro allI impI notI)
        fix c' assume lt: "c' < ?c" and f': "free_slot f c'"
        then have lo: "i * 128 \<le> unat c'" using Suc.prems(4) by simp
        have hi: "unat c' < i * 128 + j" using lt uc by (simp add: word_less_nat_alt)
        then have hi': "unat c' < (i + 1) * 128" using fj by simp
        have "unat c' - i * 128 < j" using lo hi by simp
        with fj have "\<not> ?P (unat c' - i * 128)" by simp
        with scan_cover(1)[OF lo hi'] f' show False by simp
      qed
      have "\<exists>c fm. free_slot f c \<and> (\<forall>c'. c' < c \<longrightarrow> \<not> free_slot f c')
                 \<and> store (Device fm) = store (Device f) \<and> fatSectors fm = fatSectors f
                 \<and> BootSector fm = BootSector f \<and> WriteFAT fm c EOF = (Inl e, f')"
        using fj first w st by (intro exI[of _ ?c] exI[of _ ?f1]) simp
      then show ?thesis by blast
    qed
  qed
qed

text \<open>
  Claim C10, as the code has it. \<open>WriteFAT\<close> updates the FAT copies one after the other and
  undoes nothing, and \<open>Alloc\<close> returns its error as it is. So after a failed \<open>Alloc\<close> either
  the store of the device is unchanged (the chosen entry, like every other, reads as
  before: 0), or the device failed at a FAT copy after the first, and then the first free
  slot, the cluster \<open>Alloc\<close> chose, reads EOF from the primary FAT: the slot is taken. The
  second case needs two FAT copies.
\<close>

theorem Alloc_failure_effect:
  assumes wfd: "wf_device (Device f)"
    and fats: "fatSectors f \<noteq> []"
    and spc: "SecPerClus (BootSector f) \<noteq> 0"
    and sz: "unat (FatSz32 (BootSector f)) * 128 \<le> 2 ^ 32"
    and res: "Alloc f = (Inl e, f')"
  shows "store (Device f') = store (Device f)
       \<or> (2 \<le> length (fatSectors f)
          \<and> (\<exists>c. free_slot f c \<and> (\<forall>c'. c' < c \<longrightarrow> \<not> free_slot f c')
                \<and> fat_entry f' c = Inr EOF))"
proof -
  obtain fat0 rest where fs: "fatSectors f = fat0 # rest"
    using fats by (cases "fatSectors f") auto
  obtain nc where nc: "NumClusters f = Inr nc"
    using spc by (simp add: NumClusters_def Let_def)
  have inv: "\<forall>c. free_slot f c \<longrightarrow> 0 * 128 \<le> unat c" by simp
  have res0: "Alloc_loop f 0 = (Inl e, f')" using res by (simp add: Alloc_def)
  from Alloc_loop_Inl[OF nc sz fs inv res0]
  consider "store (Device f') = store (Device f)"
    | c fm where "free_slot f c" "\<forall>c'. c' < c \<longrightarrow> \<not> free_slot f c'"
        "store (Device fm) = store (Device f)" "fatSectors fm = fatSectors f"
        "WriteFAT fm c EOF = (Inl e, f')"
    by blast
  then show ?thesis
  proof cases
    case 1
    then show ?thesis by simp
  next
    case 2
    have "wf_device (Device fm)" using wfd 2(3) by (simp add: wf_device_def)
    from WriteFAT_Inl[OF this 2(5)] 2 show ?thesis
      by (auto simp: EOF_masked)
  qed
qed

lemma Alloc_faulty:
  "Alloc faulty_fs =
     Alloc_mark (blank_fs\<lparr>Device := blank_device\<lparr>faults := [False, False, False, True]\<rparr>\<rparr>) 2"
proof -
  have r: "ReadSector (Device faulty_fs) 32 =
      (Inr (replicate 512 0), blank_device\<lparr>faults := [False, False, False, True]\<rparr>)"
    by (simp add: faulty_fs_def blank_fs_def blank_device_def device_defs)
  have b: "BootSector faulty_fs = example_bs" "fatSectors faulty_fs = [32, 48]"
    by (simp_all add: faulty_fs_def blank_fs_def)
  have u: "faulty_fs\<lparr>Device := blank_device\<lparr>faults := [False, False, False, True]\<rparr>\<rparr>
      = blank_fs\<lparr>Device := blank_device\<lparr>faults := [False, False, False, True]\<rparr>\<rparr>"
    by (simp add: faulty_fs_def)
  have bb: "BootSector (blank_fs\<lparr>Device := blank_device\<lparr>faults := [False, False, False, True]\<rparr>\<rparr>)
      = example_bs"
    by (simp add: blank_fs_def)
  show ?thesis
    unfolding Alloc_def
    by (subst Alloc_loop.simps) (simp add: r b u example_bs_fields Alloc_sector_zero[OF bb])
qed

lemma Alloc_faulty_result:
  "fst (Alloc faulty_fs) = Inl DeviceIO"
  "fst (WriteFAT (blank_fs\<lparr>Device := blank_device\<lparr>faults := [False, False, False, True]\<rparr>\<rparr>) 2 EOF)
     = Inl DeviceIO"
  "fst (ReadFAT (snd (Alloc faulty_fs)) 2) = Inr EOF"
  "fat_entry (snd (Alloc faulty_fs)) 2 = Inr EOF"
  unfolding Alloc_faulty
  by (simp_all add: Alloc_mark_def WriteFAT_def ReadFAT_def fat_entry_def
      no_faults_def fatIndices_def blank_defs device_defs Uint32_def PutUint32_def
      EOF_def)

lemma fat_entry_faulty: "fat_entry faulty_fs 2 = Inr 0"
  by (simp add: ReadFAT_def fat_entry_def no_faults_def faulty_fs_def fatIndices_def blank_defs
      device_defs Uint32_def)

lemma free_slot_faulty: "free_slot faulty_fs 2"
proof -
  have "BootSector faulty_fs = example_bs" by (simp add: faulty_fs_def blank_fs_def)
  then show ?thesis
    by (simp add: free_slot_def fat_entry_faulty NumClusters_example example_bs_fields)
qed


lemma fatSectors_Alloc_faulty: "fatSectors (snd (Alloc faulty_fs)) = fatSectors faulty_fs"
  unfolding Alloc_faulty
  by (simp add: Alloc_mark_def WriteFAT_def faulty_fs_def fatIndices_def blank_defs device_defs)

lemma wf_faulty: "wf_device (Device faulty_fs)"
  by (simp add: wf_device_def faulty_fs_def blank_device_def SectorSize_def)

theorem Alloc_failure_effect_witness:
  "wf_device (Device faulty_fs) \<and> fatSectors faulty_fs \<noteq> []
   \<and> SecPerClus (BootSector faulty_fs) \<noteq> 0
   \<and> unat (FatSz32 (BootSector faulty_fs)) * 128 \<le> 2 ^ 32
   \<and> fst (Alloc faulty_fs) = Inl DeviceIO
   \<and> store (Device (snd (Alloc faulty_fs))) \<noteq> store (Device faulty_fs)
   \<and> 2 \<le> length (fatSectors faulty_fs)
   \<and> (\<exists>c. free_slot faulty_fs c \<and> fat_entry (snd (Alloc faulty_fs)) c = Inr EOF)"
proof -
  have b: "BootSector faulty_fs = example_bs" "fatSectors faulty_fs = [32, 48]"
    by (simp_all add: faulty_fs_def blank_fs_def)
  have fats: "fatSectors faulty_fs \<noteq> []" by (simp add: b)
  have spc: "SecPerClus (BootSector faulty_fs) \<noteq> 0" by (simp add: b example_bs_fields)
  have sz: "unat (FatSz32 (BootSector faulty_fs)) * 128 \<le> 2 ^ 32"
    by (simp add: b example_bs_fields)
  have res: "Alloc faulty_fs = (Inl DeviceIO, snd (Alloc faulty_fs))"
    using Alloc_faulty_result(1) by (cases "Alloc faulty_fs") simp
  have ne: "store (Device (snd (Alloc faulty_fs))) \<noteq> store (Device faulty_fs)"
  proof
    assume "store (Device (snd (Alloc faulty_fs))) = store (Device faulty_fs)"
    from fat_entry_cong[OF this fatSectors_Alloc_faulty, of 2]
    show False by (simp add: Alloc_faulty_result fat_entry_faulty EOF_def)
  qed
  have "2 \<le> length (fatSectors faulty_fs)
     \<and> (\<exists>c. free_slot faulty_fs c \<and> fat_entry (snd (Alloc faulty_fs)) c = Inr EOF)"
    using Alloc_failure_effect[OF wf_faulty fats spc sz res] ne by blast
  then show ?thesis
    using wf_faulty fats spc sz ne Alloc_faulty_result(1) by simp
qed

text \<open>
  Claim C10 as stated fails on the example volume when the device rejects the write of
  the second FAT copy: cluster 2 is the free slot that \<open>Alloc\<close> chooses, the \<open>WriteFAT\<close>
  that marks it fails, \<open>Alloc\<close> returns the error, and \<open>ReadFAT\<close> then returns EOF for
  cluster 2, not 0.
\<close>

theorem Alloc_failure_counterexample:
  "free_slot faulty_fs 2 \<and> fat_entry faulty_fs 2 = Inr 0
   \<and> Alloc faulty_fs
       = Alloc_mark (blank_fs\<lparr>Device := blank_device\<lparr>faults := [False, False, False, True]\<rparr>\<rparr>) 2
   \<and> fst (WriteFAT (blank_fs\<lparr>Device := blank_device\<lparr>faults := [False, False, False, True]\<rparr>\<rparr>)
            2 EOF) = Inl DeviceIO
   \<and> fst (Alloc faulty_fs) = Inl DeviceIO
   \<and> fst (ReadFAT (snd (Alloc faulty_fs)) 2) = Inr EOF
   \<and> EOF \<noteq> 0"
  using free_slot_faulty fat_entry_faulty Alloc_faulty Alloc_faulty_result
  by (simp add: EOF_def)

section \<open>The effect of WriteFAT on the entries of the FAT copies\<close>

lemma fatIndices_snd: "snd (fatIndices k) = unat (k mod 128) * 4"
  by (simp add: fatIndices_def)

lemma fatIndices_distinct:
  assumes "k \<noteq> x" "k div 128 = x div 128"
  shows "snd (fatIndices k) + 4 \<le> snd (fatIndices x) \<or> snd (fatIndices x) + 4 \<le> snd (fatIndices k)"
proof -
  have "k mod 128 \<noteq> x mod 128"
  proof
    assume "k mod 128 = x mod 128"
    then have "k div 128 * 128 + k mod 128 = x div 128 * 128 + x mod 128"
      using assms(2) by simp
    then show False using assms(1) by (simp add: div_mult_mod_eq)
  qed
  then have "unat (k mod 128) \<noteq> unat (x mod 128)" by (simp add: word_unat_eq_iff)
  then show ?thesis by (auto simp: fatIndices_snd)
qed

lemma WriteFAT_entries:
  assumes wfd: "wf_device (Device f)"
    and wf: "wf_fat f"
    and x: "x div 128 < FatSz32 (BootSector f)"
    and w: "WriteFAT f x v = (Inr u, f')"
    and off: "off \<in> set (fatSectors f)"
  shows "fat_raw (store (Device f')) off x AND 0x0FFFFFFF = v AND 0x0FFFFFFF"
    and "fat_raw (store (Device f')) off x AND 0xF0000000
           = fat_raw (store (Device f)) off x AND 0xF0000000"
    and "k \<noteq> x \<Longrightarrow> k div 128 < FatSz32 (BootSector f) \<Longrightarrow>
         fat_raw (store (Device f')) off k = fat_raw (store (Device f)) off k"
proof -
  let ?S = "(\<lambda>off. x div 128 + off) ` set (fatSectors f)"
  have st: "store (Device f') =
      (\<lambda>l. if l \<in> ?S then fat_patch (store (Device f) l) (snd (fatIndices x)) v
            else store (Device f) l)"
    by (rule WriteFAT_closed[OF wf x w])
  have len: "\<And>l. length (store (Device f) l) = SectorSize"
    using wfd by (simp add: wf_device_def)
  have bi: "snd (fatIndices x) + 4 \<le> SectorSize" by (rule fatIndices_bound)
  show "fat_raw (store (Device f')) off x AND 0x0FFFFFFF = v AND 0x0FFFFFFF"
    using off bi len by (simp add: st fat_raw_def fatIndices_fst fat_patch_low)
  show "fat_raw (store (Device f')) off x AND 0xF0000000
           = fat_raw (store (Device f)) off x AND 0xF0000000"
    using off bi len by (simp add: st fat_raw_def fatIndices_fst fat_patch_high)
  show "fat_raw (store (Device f')) off k = fat_raw (store (Device f)) off k"
    if k: "k \<noteq> x" "k div 128 < FatSz32 (BootSector f)"
  proof (cases "k div 128 + off \<in> ?S")
    case False
    then show ?thesis by (simp add: st fat_raw_def fatIndices_fst)
  next
    case True
    then obtain off' where "off' \<in> set (fatSectors f)" "k div 128 + off = x div 128 + off'"
      by auto
    from wf_fat_inj[OF wf off this(1) k(2) x this(2)] have "k div 128 = x div 128" by simp
    from fatIndices_distinct[OF k(1) this] show ?thesis
      using True by (simp add: st fat_raw_def fatIndices_fst fat_patch_def Uint32_PutUint32_other)
  qed
qed

lemma WriteFAT_wf:
  assumes "WriteFAT f x v = (r, f')"
  shows "wf_device (Device f) \<Longrightarrow> wf_device (Device f')"
    and "wf_fat f \<Longrightarrow> wf_fat f'"
proof -
  let ?s = "fst (fatIndices x)" and ?bi = "snd (fatIndices x)"
  obtain d' where l: "WriteFAT_loop (Device f) ?s ?bi v (fatSectors f) = (r, d')"
    and f': "f' = f\<lparr>Device := d'\<rparr>"
    using assms by (auto simp: WriteFAT_def split: prod.splits)
  show "wf_fat f'" if "wf_fat f" using that f' by (simp add: wf_fat_def)
  show "wf_device (Device f')" if wfd: "wf_device (Device f)"
  proof (cases r)
    case (Inl e)
    from WriteFAT_loop_Inl[OF l[unfolded Inl]] obtain pre where
      "store d' = fold (patch_store ?s ?bi v) pre (store (Device f))" by blast
    then show ?thesis using wfd f' fold_patch_length[of "store (Device f)" SectorSize ?s ?bi v pre]
      by (simp add: wf_device_def)
  next
    case (Inr u)
    from WriteFAT_loop_store[OF l[unfolded Inr]]
    show ?thesis using wfd f' fold_patch_length[of "store (Device f)" SectorSize ?s ?bi v "fatSectors f"]
      by (simp add: wf_device_def)
  qed
qed

lemma fat_entry_raw:
  "fatSectors f = fat0 # rest \<Longrightarrow>
   fat_entry f k = Inr (fat_raw (store (Device f)) fat0 k AND 0x0fffffff)"
  by (simp add: fat_entry_value fat_raw_def fatIndices_def add.commute)

section \<open>Free\<close>

lemma linked_append_right: "linked f (a @ b) \<Longrightarrow> linked f b"
proof (induction a)
  case Nil
  then show ?case by simp
next
  case (Cons x a)
  then show ?case by (cases "a @ b") auto
qed

lemma linked_cong_on:
  "\<forall>z \<in> set xs. fat_entry f' z = fat_entry f z \<Longrightarrow> linked f' xs = linked f xs"
  by (induction f xs rule: linked.induct) auto

text \<open>From a cluster there is one way to the end of its chain.\<close>

lemma chain_unique:
  assumes "linked f (x # p1)" "linked f (x # p2)"
    and "\<forall>y \<in> set p1. y < EOF" "\<forall>y \<in> set p2. y < EOF"
    and "at_end f (last (x # p1))" "at_end f (last (x # p2))"
  shows "p1 = p2"
  using assms
proof (induction p1 arbitrary: x p2)
  case Nil
  then show ?case by (cases p2) (auto simp: at_end_def)
next
  case (Cons y p1)
  show ?case
  proof (cases p2)
    case Nil
    with Cons.prems show ?thesis by (auto simp: at_end_def)
  next
    case (Cons y' p2')
    with Cons.prems have "y = y'" by simp
    moreover have "p1 = p2'"
      using Cons.IH[of y p2'] Cons.prems Cons \<open>y = y'\<close> by simp
    ultimately show ?thesis using Cons by simp
  qed
qed

lemma chain_distinct:
  assumes "linked f xs" "\<forall>y \<in> set xs. y < EOF" "xs \<noteq> []" "at_end f (last xs)"
  shows "distinct xs"
  using assms
proof (induction xs)
  case Nil
  then show ?case by simp
next
  case (Cons x rest)
  show ?case
  proof (cases rest)
    case Nil
    then show ?thesis by simp
  next
    case (Cons y rest')
    have l: "linked f rest" using Cons.prems(1) Cons by simp
    have d: "distinct rest" using Cons.IH[OF l] Cons.prems Cons by simp
    have "x \<notin> set rest"
    proof
      assume "x \<in> set rest"
      then obtain a b where ab: "rest = a @ x # b" by (auto dest: split_list)
      have 1: "linked f (x # b)" using l ab linked_append_right[of f a "x # b"] by simp
      have "last (x # b) = last (x # rest)" using ab by simp
      then have 2: "at_end f (last (x # b))" using Cons.prems(4) by simp
      have "rest = b"
        using chain_unique[OF Cons.prems(1) 1 _ _ Cons.prems(4) 2] Cons.prems(2) ab by auto
      then show False using ab by (metis append_self_conv2 list.distinct(1) same_append_eq append.assoc append_Cons append_Nil length_append length_Cons Suc_n_not_le_n le_add2)
    qed
    with d show ?thesis by simp
  qed
qed

lemma ReadFAT_no_faults:
  "faults (Device f) = [] \<Longrightarrow> fatSectors f \<noteq> [] \<Longrightarrow> ReadFAT f k = (fat_entry f k, f)"
  by (cases "fatSectors f")
     (simp_all add: fat_entry_def no_faults_def ReadFAT_def ReadSector_no_faults
       split: prod.splits)

lemma ReadFAT_Inl:
  "ReadFAT f k = (Inl e, f') \<Longrightarrow> fatSectors f \<noteq> [] \<Longrightarrow>
   e = DeviceIO \<and> faults (Device f) \<noteq> []"
  by (cases "fatSectors f")
     (auto simp: ReadFAT_def ReadSector_def next_fault_def
       split: prod.splits sum.splits list.splits bool.splits)

lemma WriteFAT_loop_error:
  "WriteFAT_loop d s bi v offs = (Inl e, d') \<Longrightarrow> e = DeviceIO \<and> faults d \<noteq> []"
proof (induction offs arbitrary: d)
  case Nil
  then show ?case by simp
next
  case (Cons off offs)
  show ?case
  proof (cases "faults d = []")
    case True
    from WriteFAT_loop_no_faults[OF True, of s bi v "off # offs"] Cons.prems
    show ?thesis by auto
  next
    case False
    obtain rr d1 where r: "ReadSector d (s + off) = (rr, d1)"
      by (cases "ReadSector d (s + off)")
    show ?thesis
    proof (cases rr)
      case (Inl e1)
      then show ?thesis using Cons.prems r ReadSector_Inl[of d "s + off" e1 d1] False by simp
    next
      case (Inr block)
      obtain wr d2 where w: "WriteSector d1 (s + off) (fat_patch block bi v) = (wr, d2)"
        by (cases "WriteSector d1 (s + off) (fat_patch block bi v)")
      show ?thesis
      proof (cases wr)
        case (Inl e2)
        then show ?thesis
          using Cons.prems r Inr w WriteSector_Inl[of d1 "s + off" _ e2 d2] False
          by (simp add: fat_patch_def Let_def)
      next
        case (Inr u)
        have "WriteFAT_loop d2 s bi v offs = (Inl e, d')"
          using Cons.prems r \<open>rr = Inr block\<close> w Inr by (simp add: fat_patch_def Let_def)
        from Cons.IH[OF this] False show ?thesis by simp
      qed
    qed
  qed
qed

lemma WriteFAT_error:
  "WriteFAT f k v = (Inl e, f') \<Longrightarrow> e = DeviceIO \<and> faults (Device f) \<noteq> []"
  by (auto simp: WriteFAT_def split: prod.splits dest: WriteFAT_loop_error)

lemma Seek_Start_zero:
  "Seek c 0 SeekStart = (Inr 0, c\<lparr>cluster := FirstCluster c, prev := []\<rparr>)"
  by (cases "prev c") (simp_all add: Seek_Start FirstCluster_def)

lemma chain_freed_step:
  assumes wfd: "wf_device (Device f)"
    and wf: "wf_fat f"
    and x: "x div 128 < FatSz32 (BootSector f)"
    and st1: "store (Device f1) = store (Device f)" "fatSectors f1 = fatSectors f"
      "BootSector f1 = BootSector f"
    and w: "WriteFAT f1 x 0 = (Inr u, f2)"
  shows "chain_freed f f2 [x]"
proof -
  have wfd1: "wf_device (Device f1)" using wfd st1 by (simp add: wf_device_def)
  have wf1: "wf_fat f1" using wf st1 by (simp add: wf_fat_def)
  have x1: "x div 128 < FatSz32 (BootSector f1)" using x st1 by simp
  show ?thesis
    unfolding chain_freed_def
    using WriteFAT_entries[OF wfd1 wf1 x1 w] st1 WriteFAT_fields[OF w] by simp
qed

lemma chain_freed_trans:
  assumes 1: "chain_freed f f2 [x]" and 2: "chain_freed f2 f' rest"
    and flds: "fatSectors f2 = fatSectors f" "BootSector f2 = BootSector f"
    and x: "x \<notin> set rest" "x div 128 < FatSz32 (BootSector f)"
    and rest: "\<forall>y \<in> set rest. y div 128 < FatSz32 (BootSector f)"
  shows "chain_freed f f' (x # rest)"
  unfolding chain_freed_def
proof (intro ballI conjI allI impI)
  show "fatSectors f' = fatSectors f" "BootSector f' = BootSector f"
    using 2 flds by (simp_all add: chain_freed_def)
next
  fix off assume off: "off \<in> set (fatSectors f)"
  then have off2: "off \<in> set (fatSectors f2)" using flds by simp
  have a: "(\<forall>x \<in> set [x].
           fat_raw (store (Device f2)) off x AND 0x0FFFFFFF = 0
           \<and> fat_raw (store (Device f2)) off x AND 0xF0000000
               = fat_raw (store (Device f)) off x AND 0xF0000000)
        \<and> (\<forall>k. k \<notin> set [x] \<and> k div 128 < FatSz32 (BootSector f) \<longrightarrow>
               fat_raw (store (Device f2)) off k = fat_raw (store (Device f)) off k)"
    using 1 off unfolding chain_freed_def by blast
  have b: "(\<forall>x \<in> set rest.
           fat_raw (store (Device f')) off x AND 0x0FFFFFFF = 0
           \<and> fat_raw (store (Device f')) off x AND 0xF0000000
               = fat_raw (store (Device f2)) off x AND 0xF0000000)
        \<and> (\<forall>k. k \<notin> set rest \<and> k div 128 < FatSz32 (BootSector f2) \<longrightarrow>
               fat_raw (store (Device f')) off k = fat_raw (store (Device f2)) off k)"
    using 2 off2 unfolding chain_freed_def by blast
  {
    fix y assume y: "y \<in> set (x # rest)"
    show "fat_raw (store (Device f')) off y AND 0x0FFFFFFF = 0"
    proof (cases "y \<in> set rest")
      case True
      then show ?thesis using b by simp
    next
      case False
      then have "y = x" using y by simp
      then show ?thesis using a b x flds by simp
    qed
    show "fat_raw (store (Device f')) off y AND 0xF0000000
           = fat_raw (store (Device f)) off y AND 0xF0000000"
    proof (cases "y \<in> set rest")
      case True
      then have "y \<noteq> x" using x by auto
      then show ?thesis using a b True rest by simp
    next
      case False
      then have "y = x" using y by simp
      then show ?thesis using a b x flds by simp
    qed
  }
  {
    fix k assume k: "k \<notin> set (x # rest) \<and> k div 128 < FatSz32 (BootSector f)"
    then show "fat_raw (store (Device f')) off k = fat_raw (store (Device f)) off k"
      using a b flds by simp
  }
qed

lemma Free_loop_chain:
  assumes "wf_device (Device (fs c))" "wf_fat (fs c)"
    and "xs \<noteq> []" "cluster c = hd xs" "linked (fs c) xs"
    and "\<forall>x \<in> set xs. x < EOF \<and> x div 128 < FatSz32 (BootSector (fs c))"
    and "at_end (fs c) (last xs)" "distinct xs"
  shows "\<exists>r c'. Free_loop c = Some (r, c') \<and> (r = Inr () \<or> r = Inl DeviceIO)
           \<and> (faults (Device (fs c)) = [] \<longrightarrow> r = Inr ())
           \<and> (r = Inr () \<longrightarrow> chain_freed (fs c) (fs c') xs)"
  using assms
proof (induction xs arbitrary: c)
  case Nil
  then show ?case by simp
next
  case (Cons x rest)
  let ?f = "fs c"
  have cx: "cluster c = x" and xlt: "x < EOF" and xr: "x div 128 < FatSz32 (BootSector ?f)"
    using Cons.prems by simp_all
  have fats: "fatSectors ?f \<noteq> []"
    using Cons.prems(7) by (auto simp: at_end_def fat_entry_def no_faults_def ReadFAT_def
        split: list.splits)
  then obtain fat0 fats' where fs0: "fatSectors ?f = fat0 # fats'"
    by (cases "fatSectors ?f") auto
  obtain rr f1 where r: "ReadFAT ?f x = (rr, f1)" by (cases "ReadFAT ?f x")
  note f1 = ReadFAT_fields[OF r]
  show ?case
  proof (cases rr)
    case (Inl e)
    with ReadFAT_Inl[OF r[unfolded Inl] fats]
    show ?thesis using r cx xlt by (subst Free_loop.simps) simp
  next
    case (Inr nxt)
    have nxt: "fat_entry ?f x = Inr nxt" using ReadFAT_Inr r Inr by blast
    obtain wr f2 where w: "WriteFAT f1 x 0 = (wr, f2)" by (cases "WriteFAT f1 x 0")
    have fl1: "faults (Device ?f) = [] \<Longrightarrow> faults (Device f1) = []"
      using ReadFAT_no_faults[OF _ fats, of x] r by simp
    show ?thesis
    proof (cases wr)
      case (Inl e)
      with WriteFAT_error[OF w[unfolded Inl]] fl1
      show ?thesis using r Inr w cx xlt by (subst Free_loop.simps) auto
    next
      case (Inr u)
      let ?c2 = "c\<lparr>fs := f2, cluster := nxt\<rparr>"
      have unf: "Free_loop c = Free_loop ?c2"
        using r \<open>rr = Inr nxt\<close> w Inr cx xlt by (subst Free_loop.simps) simp
      note f2 = WriteFAT_fields[OF w]
      have wfd1: "wf_device (Device f1)" using Cons.prems(1) f1 by (simp add: wf_device_def)
      have wf1: "wf_fat f1" using Cons.prems(2) f1 by (simp add: wf_fat_def)
      note wf2 = WriteFAT_wf[OF w]
      have step: "chain_freed ?f f2 [x]"
        using chain_freed_step[OF Cons.prems(1,2) xr _ _ _ w[unfolded Inr]] f1 by simp
      have fl2: "faults (Device ?f) = [] \<Longrightarrow> faults (Device f2) = []"
        using WriteFAT_no_faults[of f1 x 0] fl1 w by auto
      show ?thesis
      proof (cases rest)
        case Nil
        then have "EOF \<le> nxt" using Cons.prems(7) nxt by (simp add: at_end_def)
        then have "\<not> nxt < EOF" by simp
        then have "Free_loop ?c2 = Some (Inr (), ?c2)"
          by (subst Free_loop.simps) simp
        then show ?thesis using unf step Nil by simp
      next
        case (Cons y rest')
        have ny: "nxt = y" using Cons.prems(5) Cons nxt by simp
        have ent: "\<forall>z \<in> set rest. fat_entry f2 z = fat_entry ?f z"
        proof
          fix z assume z: "z \<in> set rest"
          then have zx: "z \<noteq> x" using Cons.prems(8) by auto
          have zr: "z div 128 < FatSz32 (BootSector ?f)" using Cons.prems(6) z by simp
          have "fat_raw (store (Device f2)) fat0 z = fat_raw (store (Device ?f)) fat0 z"
            using step[unfolded chain_freed_def] fs0 zx zr by simp
          then show "fat_entry f2 z = fat_entry ?f z"
            using fat_entry_raw[of f2 fat0 fats' z] fat_entry_raw[OF fs0, of z] f1 f2 fs0
            by simp
        qed
        have l2: "linked (fs ?c2) rest"
          using linked_cong_on[OF ent] Cons.prems(5) Cons by simp
        have "last rest \<in> set rest" using Cons by simp
        then have "fat_entry f2 (last rest) = fat_entry ?f (last rest)" using ent by blast
        moreover have "at_end ?f (last rest)" using Cons.prems(7) Cons by simp
        ultimately have e2: "at_end (fs ?c2) (last rest)"
          by (simp add: at_end_def)
        have r2: "\<forall>x \<in> set rest. x < EOF \<and> x div 128 < FatSz32 (BootSector (fs ?c2))"
          using Cons.prems(6) f1 f2 by simp
        have "\<exists>r c'. Free_loop ?c2 = Some (r, c') \<and> (r = Inr () \<or> r = Inl DeviceIO)
           \<and> (faults (Device (fs ?c2)) = [] \<longrightarrow> r = Inr ())
           \<and> (r = Inr () \<longrightarrow> chain_freed (fs ?c2) (fs c') rest)"
          using Cons.IH[of ?c2] wf2 wfd1 wf1 l2 e2 r2 Cons.prems(8) Cons ny by simp
        then obtain r' c' where res: "Free_loop ?c2 = Some (r', c')"
          "r' = Inr () \<or> r' = Inl DeviceIO"
          "faults (Device f2) = [] \<longrightarrow> r' = Inr ()"
          "r' = Inr () \<longrightarrow> chain_freed f2 (fs c') rest"
          by auto
        have "r' = Inr () \<longrightarrow> chain_freed ?f (fs c') (x # rest)"
          using chain_freed_trans[OF step _ _ _ _ xr] res(4) f1 f2 Cons.prems(6,8) by simp
        then show ?thesis using unf res fl2 by auto
      qed
    qed
  qed
qed


text \<open>
  Claim C8. Let the chain of \<open>c\<close> be not empty: the clusters \<open>xs\<close>, from the first cluster
  of \<open>c\<close> on, are linked by the FAT, each below EOF and an index of the FAT, and the entry of
  the last is an end-of-chain marker. Let the FAT copies be where \<open>NewFS\<close> puts them. Then
  \<open>Free\<close> returns, without error if the device does not fail and otherwise with the I/O
  error; and after a successful \<open>Free\<close> the entry of every cluster of \<open>xs\<close> has 0 in its
  bits 0-27 in every FAT copy (\<open>ReadFAT\<close> returns 0 for it) and every other entry of the
  FAT is as it was.
\<close>

theorem Free_zeroes_chain:
  assumes wfd: "wf_device (Device (fs c))"
    and wf: "wf_fat (fs c)"
    and ne: "xs \<noteq> []"
    and start: "hd xs = FirstCluster c"
    and lnk: "linked (fs c) xs"
    and rng: "\<forall>x \<in> set xs. x < EOF \<and> x div 128 < FatSz32 (BootSector (fs c))"
    and last: "at_end (fs c) (last xs)"
  shows "\<exists>r c'. Free c = Some (r, c') \<and> (r = Inr () \<or> r = Inl DeviceIO)
           \<and> (faults (Device (fs c)) = [] \<longrightarrow> r = Inr ())
           \<and> (r = Inr () \<longrightarrow>
                 chain_freed (fs c) (fs c') xs \<and> (\<forall>x \<in> set xs. fat_entry (fs c') x = Inr 0))"
proof -
  let ?c1 = "c\<lparr>cluster := FirstCluster c, prev := []\<rparr>"
  have fr: "Free c = Free_loop ?c1" by (simp add: Free_def Seek_Start_zero)
  have d: "distinct xs" using chain_distinct[OF lnk _ ne last] rng by simp
  from Free_loop_chain[of ?c1 xs] wfd wf ne start lnk rng last d
  obtain r c' where res: "Free_loop ?c1 = Some (r, c')" "r = Inr () \<or> r = Inl DeviceIO"
    "faults (Device (fs c)) = [] \<longrightarrow> r = Inr ()"
    "r = Inr () \<longrightarrow> chain_freed (fs c) (fs c') xs"
    by auto
  have "\<forall>x \<in> set xs. fat_entry (fs c') x = Inr 0" if ok: "r = Inr ()"
  proof
    fix x assume x: "x \<in> set xs"
    have cf: "chain_freed (fs c) (fs c') xs" using res(4) ok by simp
    have "fatSectors (fs c) \<noteq> []"
      using last by (auto simp: at_end_def fat_entry_def no_faults_def ReadFAT_def
          split: list.splits)
    then obtain fat0 rest where fs0: "fatSectors (fs c) = fat0 # rest"
      by (cases "fatSectors (fs c)") auto
    then have fs1: "fatSectors (fs c') = fat0 # rest" using cf by (simp add: chain_freed_def)
    have "fat_raw (store (Device (fs c'))) fat0 x AND 0x0FFFFFFF = 0"
      using cf x fs0 unfolding chain_freed_def by simp
    then show "fat_entry (fs c') x = Inr 0" using fat_entry_raw[OF fs1, of x] by simp
  qed
  with res fr show ?thesis by auto
qed

lemma chain_fs_wf: "wf_device (Device chain_fs)" "wf_fat chain_fs"
proof -
  let ?f1 = "snd (WriteFAT blank_fs 2 3)"
  have 1: "WriteFAT blank_fs 2 3 = (fst (WriteFAT blank_fs 2 3), ?f1)" by simp
  have 2: "WriteFAT ?f1 3 EOF = (fst (WriteFAT ?f1 3 EOF), chain_fs)"
    by (simp add: chain_fs_def)
  show "wf_device (Device chain_fs)"
    using WriteFAT_wf(1)[OF 2] WriteFAT_wf(1)[OF 1] wf_blank by blast
  show "wf_fat chain_fs"
    using WriteFAT_wf(2)[OF 2] WriteFAT_wf(2)[OF 1] wf_fat_blank by blast
qed

lemma chain_fs_fields:
  "BootSector chain_fs = example_bs" "fatSectors chain_fs = [32, 48]"
  "faults (Device chain_fs) = []"
  by (simp_all add: chain_fs_def WriteFAT_def fatIndices_def blank_defs device_defs)

lemma chain_fs_entries: "fat_entry chain_fs 2 = Inr 3" "fat_entry chain_fs 3 = Inr EOF"
  using ReadFAT_Inr[OF ReadFAT_chain_fs_2] ReadFAT_Inr[OF ReadFAT_chain_fs_3] by simp_all

theorem Free_zeroes_chain_witness:
  "wf_device (Device chain_fs) \<and> wf_fat chain_fs
   \<and> hd [2, 3] = FirstCluster (NewChain chain_fs 2)
   \<and> linked chain_fs [2, 3]
   \<and> (2 :: uint32) < EOF \<and> (3 :: uint32) < EOF
   \<and> at_end chain_fs 3
   \<and> faults (Device chain_fs) = []
   \<and> (\<exists>c'. Free (NewChain chain_fs 2) = Some (Inr (), c')
          \<and> fat_entry (fs c') 2 = Inr 0 \<and> fat_entry (fs c') 3 = Inr 0)"
proof -
  let ?c = "NewChain chain_fs 2"
  have fsc: "fs ?c = chain_fs" by (simp add: NewChain_def)
  have wfd: "wf_device (Device (fs ?c))" and wf: "wf_fat (fs ?c)"
    using chain_fs_wf by (simp_all add: fsc)
  have ne: "[2, 3 :: uint32] \<noteq> []" by simp
  have start: "hd [2, 3] = FirstCluster ?c" by (simp add: FirstCluster_def NewChain_def)
  have lnk: "linked (fs ?c) [2, 3]" by (simp add: fsc chain_fs_entries)
  have rng: "\<forall>x \<in> set [2, 3 :: uint32]. x < EOF \<and> x div 128 < FatSz32 (BootSector (fs ?c))"
    by (simp add: fsc chain_fs_fields example_bs_fields EOF_def)
  have last: "at_end (fs ?c) (last [2, 3])"
    by (simp add: fsc at_end_def chain_fs_entries)
  have nf: "faults (Device (fs ?c)) = []" by (simp add: fsc chain_fs_fields)
  from Free_zeroes_chain[OF wfd wf ne start lnk rng last] nf
  have "\<exists>c'. Free ?c = Some (Inr (), c')
          \<and> fat_entry (fs c') 2 = Inr 0 \<and> fat_entry (fs c') 3 = Inr 0"
    by auto
  then show ?thesis
    using wfd wf start lnk last nf by (simp add: fsc EOF_def)
qed

section \<open>Writing an entry back\<close>

lemma Uint32_bytes:
  "ucast (Uint32 b i) = b ! i"
  "ucast (drop_bit 8 (Uint32 b i)) = b ! (i + 1)"
  "ucast (drop_bit 16 (Uint32 b i)) = b ! (i + 2)"
  "ucast (drop_bit 24 (Uint32 b i)) = b ! (i + 3)"
proof -
  show "ucast (Uint32 b i) = b ! i"
    unfolding Uint32_def by (rule bit_word_eqI) (auto simp: bit_simps dest: bit_imp_le_length)
  show "ucast (drop_bit 8 (Uint32 b i)) = b ! (i + 1)"
    unfolding Uint32_def by (rule bit_word_eqI) (auto simp: bit_simps dest: bit_imp_le_length)
  show "ucast (drop_bit 16 (Uint32 b i)) = b ! (i + 2)"
    unfolding Uint32_def by (rule bit_word_eqI) (auto simp: bit_simps dest: bit_imp_le_length)
  show "ucast (drop_bit 24 (Uint32 b i)) = b ! (i + 3)"
    unfolding Uint32_def by (rule bit_word_eqI) (auto simp: bit_simps dest: bit_imp_le_length)
qed

lemma PutUint32_Uint32: "i + 4 \<le> length b \<Longrightarrow> PutUint32 b i (Uint32 b i) = b"
  by (simp add: PutUint32_def Uint32_bytes list_update_same_conv)

lemma nth_update_if: "n < length xs \<Longrightarrow> xs[i := x] ! n = (if i = n then x else xs ! n)"
  by (cases "i = n") simp_all

lemma PutUint32_overwrite: "PutUint32 (PutUint32 b i v) i w = PutUint32 b i w"
  unfolding PutUint32_def by (rule nth_equalityI) (simp_all add: nth_update_if)

lemma PutUint32_swap:
  "i + 4 \<le> j \<or> j + 4 \<le> i \<Longrightarrow>
   PutUint32 (PutUint32 b i v) j w = PutUint32 (PutUint32 b j w) i v"
  unfolding PutUint32_def by (rule nth_equalityI) (auto simp: nth_update_if)

lemma masks_eq:
  assumes "(x::uint32) AND 0x0fffffff = v AND 0x0fffffff"
  shows "(v AND 0x0fffffff) OR (x AND 0xf0000000) = x"
proof (rule bit_word_eqI)
  fix n assume n: "n < LENGTH(32)"
  have "bit (x AND mask 28) n = bit (v AND mask 28) n"
    using assms by (simp add: low_mask)
  then show "bit ((v AND 0x0fffffff) OR (x AND 0xf0000000)) n = bit x n"
    using n unfolding low_mask high_mask by (auto simp: bit_simps)
qed


lemma fat_patch_overwrite:
  "i + 4 \<le> length b \<Longrightarrow> fat_patch (fat_patch b i v) i w = fat_patch b i w"
  by (simp add: fat_patch_def Uint32_PutUint32_same mask_high PutUint32_overwrite)

lemma fat_patch_swap:
  "i + 4 \<le> j \<or> j + 4 \<le> i \<Longrightarrow>
   fat_patch (fat_patch b i v) j w = fat_patch (fat_patch b j w) i v"
  by (simp add: fat_patch_def Uint32_PutUint32_other PutUint32_swap disj_commute)

lemma fat_patch_same:
  "i + 4 \<le> length b \<Longrightarrow> Uint32 b i AND 0x0fffffff = v AND 0x0fffffff \<Longrightarrow>
   fat_patch b i v = b"
  by (simp add: fat_patch_def masks_eq PutUint32_Uint32)

lemma WriteFAT_fat_write:
  assumes "wf_fat f" "k div 128 < FatSz32 (BootSector f)" "WriteFAT f k v = (Inr u, f')"
  shows "store (Device f') = fat_write f k v (store (Device f))"
  using WriteFAT_closed[OF assms] by (simp add: fat_write_def)

lemma fat_write_cong: "fatSectors f' = fatSectors f \<Longrightarrow> fat_write f' = fat_write f"
  by (simp add: fat_write_def fun_eq_iff)

lemma fat_write_length:
  "\<forall>l. length (st l) = n \<Longrightarrow> length (fat_write f k v st l) = n"
  by (simp add: fat_write_def length_fat_patch)

lemma fat_write_overwrite:
  assumes "\<forall>l. length (st l) = SectorSize"
  shows "fat_write f k w (fat_write f k v st) = fat_write f k w st"
  using assms fatIndices_bound[of k]
  by (auto simp: fat_write_def fun_eq_iff fat_patch_overwrite)

lemma fat_write_swap:
  assumes wf: "wf_fat f"
    and k: "k div 128 < FatSz32 (BootSector f)" "k' div 128 < FatSz32 (BootSector f)"
    and ne: "k \<noteq> k'"
  shows "fat_write f k w (fat_write f k' v st) = fat_write f k' v (fat_write f k w st)"
proof
  fix l
  let ?S = "(\<lambda>off. k div 128 + off) ` set (fatSectors f)"
  let ?S' = "(\<lambda>off. k' div 128 + off) ` set (fatSectors f)"
  show "fat_write f k w (fat_write f k' v st) l = fat_write f k' v (fat_write f k w st) l"
  proof (cases "l \<in> ?S \<and> l \<in> ?S'")
    case True
    then obtain off off' where "off \<in> set (fatSectors f)" "off' \<in> set (fatSectors f)"
      "l = k div 128 + off" "l = k' div 128 + off'"
      by auto
    with wf_fat_inj[OF wf this(1,2) k] have "k div 128 = k' div 128" by simp
    from fatIndices_distinct[OF ne this] show ?thesis
      using True by (simp add: fat_write_def fat_patch_swap disj_commute)
  next
    case False
    then show ?thesis by (auto simp: fat_write_def)
  qed
qed

lemma fat_write_same:
  assumes "\<forall>l. length (st l) = SectorSize"
    and "\<forall>off \<in> set (fatSectors f). fat_raw st off k AND 0x0fffffff = v AND 0x0fffffff"
  shows "fat_write f k v st = st"
  using assms fatIndices_bound[of k]
  by (auto simp: fat_write_def fun_eq_iff fat_raw_def fatIndices_fst fat_patch_same)

text \<open>With byte-identical copies, the primary entry is the entry of every copy.\<close>

lemma mirrors_fat_raw:
  assumes mi: "mirrors_identical f" and fs0: "fatSectors f = fat0 # rest"
    and k: "k div 128 < FatSz32 (BootSector f)" and off: "off \<in> set (fatSectors f)"
  shows "fat_raw (store (Device f)) off k = fat_raw (store (Device f)) fat0 k"
proof -
  have "store (Device f) (k div 128 + off) = store (Device f) (k div 128 + hd (fatSectors f))"
    using mi off k unfolding mirrors_identical_def by blast
  then show ?thesis using fs0 by (simp add: fat_raw_def fatIndices_fst)
qed

section \<open>Extend and Truncate\<close>

lemma Seek_forward_fields:
  "Seek_forward c n = (r, c') \<Longrightarrow>
   store (Device (fs c')) = store (Device (fs c)) \<and> fatSectors (fs c') = fatSectors (fs c)
     \<and> BootSector (fs c') = BootSector (fs c)"
proof (induction n arbitrary: c)
  case 0
  then show ?case by auto
next
  case (Suc n)
  obtain rr f1 where rf: "ReadFAT (fs c) (cluster c) = (rr, f1)"
    by (cases "ReadFAT (fs c) (cluster c)")
  note fl = ReadFAT_fields[OF rf]
  show ?case
  proof (cases rr)
    case (Inl e)
    then show ?thesis using Suc.prems rf fl by auto
  next
    case (Inr nxt)
    show ?thesis
    proof (cases "nxt \<ge> EOF")
      case True
      then show ?thesis using Suc.prems rf Inr fl by auto
    next
      case False
      let ?c1 = "c\<lparr>fs := f1, prev := prev c @ [cluster c], cluster := nxt\<rparr>"
      have "Seek_forward ?c1 n = (r, c')" using Suc.prems rf Inr False by simp
      from Suc.IH[OF this] show ?thesis using fl by simp
    qed
  qed
qed

lemma Seek_Current_fields:
  "Seek c offset SeekCurrent = (r, c') \<Longrightarrow>
   store (Device (fs c')) = store (Device (fs c)) \<and> fatSectors (fs c') = fatSectors (fs c)
     \<and> BootSector (fs c') = BootSector (fs c)"
  by (auto simp: Seek_Current Let_def split: if_splits dest: Seek_forward_fields)

lemma Seek_fields:
  assumes "Seek c offset whence = (r, c')"
  shows "store (Device (fs c')) = store (Device (fs c)) \<and> fatSectors (fs c') = fatSectors (fs c)
     \<and> BootSector (fs c') = BootSector (fs c)"
proof -
  consider (at_start) "whence = SeekStart" | (at_current) "whence = SeekCurrent"
    | (from_end) "whence = SeekEnd"
    | (other) "whence \<noteq> SeekStart" "whence \<noteq> SeekCurrent" "whence \<noteq> SeekEnd"
    by blast
  then show ?thesis
  proof cases
    case at_start
    then show ?thesis
      using assms by (auto simp: Seek_Start split: if_splits dest: Seek_Current_fields)
  next
    case at_current
    then show ?thesis using assms Seek_Current_fields by simp
  next
    case from_end
    obtain r1 c1 where 1: "Seek c 0x100000000 SeekCurrent = (r1, c1)"
      by (cases "Seek c 0x100000000 SeekCurrent")
    show ?thesis
    proof (cases r1)
      case (Inl e)
      then show ?thesis using assms from_end 1 Seek_Current_fields[OF 1] by (simp add: Seek_End)
    next
      case (Inr q)
      then have "Seek c1 offset SeekCurrent = (r, c')"
        using assms from_end 1 by (simp add: Seek_End)
      from Seek_Current_fields[OF this] Seek_Current_fields[OF 1] show ?thesis by simp
    qed
  next
    case other
    then show ?thesis using assms by (simp add: Seek_unknown)
  qed
qed

lemma Seek_forward_at_end:
  assumes "at_end (fs c) (cluster c)" "Seek_forward c n = (Inr p, c')"
  shows "cluster c' = cluster c \<and> prev c' = prev c"
proof (cases n)
  case 0
  then show ?thesis using assms by auto
next
  case (Suc m)
  obtain rr f1 where rf: "ReadFAT (fs c) (cluster c) = (rr, f1)"
    by (cases "ReadFAT (fs c) (cluster c)")
  with assms(2) Suc obtain nxt where rr: "rr = Inr nxt" by (cases rr) auto
  have "EOF \<le> nxt" using ReadFAT_Inr[OF rf[unfolded rr]] assms(1) by (simp add: at_end_def)
  then show ?thesis using assms(2) Suc rf rr by auto
qed

lemma Seek_End_at_end:
  assumes e: "at_end (fs c) (cluster c)" and s: "Seek c 0 SeekEnd = (Inr p, c')"
  shows "cluster c' = cluster c \<and> prev c' = prev c"
proof -
  obtain r1 c1 where 1: "Seek c 0x100000000 SeekCurrent = (r1, c1)"
    by (cases "Seek c 0x100000000 SeekCurrent")
  with s obtain q where r1: "r1 = Inr q" by (cases r1) (auto simp: Seek_End)
  have 2: "Seek c1 0 SeekCurrent = (Inr p, c')" using s 1 r1 by (simp add: Seek_End)
  have "Seek_forward c (nat (sint (0x100000000 :: int64))) = (Inr q, c1)"
    using 1 r1 by (simp add: Seek_Current)
  from Seek_forward_at_end[OF e this] have "cluster c1 = cluster c \<and> prev c1 = prev c" .
  moreover have "c' = c1" using 2 by (simp add: Seek_Current)
  ultimately show ?thesis by simp
qed

lemma in_fat_range:
  "unat k < unat F * 128 \<Longrightarrow> (k :: uint32) div 128 < F"
  by (simp add: word_less_nat_alt unat_div)

lemma fat_write_entries:
  assumes len: "\<forall>l. length (st l) = SectorSize" and wf: "wf_fat f"
    and x: "x div 128 < FatSz32 (BootSector f)" and off: "off \<in> set (fatSectors f)"
  shows "fat_raw (fat_write f x v st) off x AND 0x0FFFFFFF = v AND 0x0FFFFFFF"
    and "fat_raw (fat_write f x v st) off x AND 0xF0000000 = fat_raw st off x AND 0xF0000000"
    and "k \<noteq> x \<Longrightarrow> k div 128 < FatSz32 (BootSector f) \<Longrightarrow>
         fat_raw (fat_write f x v st) off k = fat_raw st off k"
proof -
  let ?g = "f\<lparr>Device := (Device f)\<lparr>store := st, faults := []\<rparr>\<rparr>"
  have wfd: "wf_device (Device ?g)" using len by (simp add: wf_device_def)
  have wfg: "wf_fat ?g" using wf by (simp add: wf_fat_def)
  have xg: "x div 128 < FatSz32 (BootSector ?g)" using x by simp
  have og: "off \<in> set (fatSectors ?g)" using off by simp
  obtain g' where w: "WriteFAT ?g x v = (Inr (), g')"
    using WriteFAT_no_faults[of ?g x v] by auto
  have st': "store (Device g') = fat_write f x v st"
    using WriteFAT_fat_write[OF wfg xg w] fat_write_cong[of ?g f] by simp
  show "fat_raw (fat_write f x v st) off x AND 0x0FFFFFFF = v AND 0x0FFFFFFF"
    using WriteFAT_entries(1)[OF wfd wfg xg w og] by (simp add: st')
  show "fat_raw (fat_write f x v st) off x AND 0xF0000000 = fat_raw st off x AND 0xF0000000"
    using WriteFAT_entries(2)[OF wfd wfg xg w og] by (simp add: st')
  show "fat_raw (fat_write f x v st) off k = fat_raw st off k"
    if "k \<noteq> x" "k div 128 < FatSz32 (BootSector f)"
    using WriteFAT_entries(3)[OF wfd wfg xg w og that(1)] that(2) by (simp add: st')
qed

text \<open>
  Claim C6, as the code has it. \<open>Truncate\<close> writes the constant EOF, \<open>0x0FFFFFF8\<close>, into
  the entry of the new end, whatever end-of-chain marker was there before \<open>Extend\<close>. Let
  the entry of the end of the chain (the cluster the cursor is at after \<open>Seek 0\<close> from the
  end) be an end-of-chain marker \<open>e\<close>, at least \<open>0x0FFFFFF8\<close>, and an index of the FAT,
  with byte-identical FAT copies where \<open>NewFS\<close> puts them. Then a successful \<open>Extend\<close>
  followed by a successful \<open>Truncate\<close> leaves the cursor at the end of the original chain,
  with the back path of that position; the entry of the cluster that \<open>Extend\<close> allocated
  reads 0 again; the entry of the old end reads EOF, and in every FAT copy it has
  \<open>0x0FFFFFF8\<close> in its bits 0-27 and its bits 28-31 as before; every other FAT entry is as
  before in every copy; and the store of the device is the store before \<open>Extend\<close> with
  that one entry patched. So the device is byte-identical to its state before \<open>Extend\<close>
  exactly when \<open>e\<close> is \<open>0x0FFFFFF8\<close>. In between, the old end is linked to the new cluster
  and the new cluster's entry is EOF.
\<close>

theorem Extend_Truncate_effect:
  assumes wfd: "wf_device (Device (fs c))"
    and wf: "wf_fat (fs c)"
    and spc: "SecPerClus (BootSector (fs c)) \<noteq> 0"
    and sz: "unat (FatSz32 (BootSector (fs c))) * 128 \<le> 2 ^ 32"
    and mi: "mirrors_identical (fs c)"
    and sk: "Seek c 0 SeekEnd = (Inr p, c0)"
    and e_rng: "cluster c0 div 128 < FatSz32 (BootSector (fs c))"
    and e_end: "fat_entry (fs c) (cluster c0) = Inr e"
    and e_ge: "EOF \<le> e"
    and ext: "Extend c = (Inr (), c1)"
    and tr: "Truncate c1 = (Inr (), c2)"
  shows "cluster c2 = cluster c0 \<and> prev c2 = prev c0
       \<and> fat_entry (fs c2) (cluster c1) = Inr 0
       \<and> fat_entry (fs c2) (cluster c0) = Inr EOF
       \<and> (\<forall>off \<in> set (fatSectors (fs c)).
             fat_raw (store (Device (fs c2))) off (cluster c0) AND 0x0FFFFFFF = EOF
             \<and> fat_raw (store (Device (fs c2))) off (cluster c0) AND 0xF0000000
                 = fat_raw (store (Device (fs c))) off (cluster c0) AND 0xF0000000
             \<and> (\<forall>k. k \<noteq> cluster c0 \<and> k div 128 < FatSz32 (BootSector (fs c)) \<longrightarrow>
                    fat_raw (store (Device (fs c2))) off k
                      = fat_raw (store (Device (fs c))) off k))
       \<and> store (Device (fs c2))
           = fat_write (fs c) (cluster c0) EOF (store (Device (fs c)))
       \<and> (store (Device (fs c2)) = store (Device (fs c)) \<longleftrightarrow> e = EOF)
       \<and> fatSectors (fs c2) = fatSectors (fs c) \<and> BootSector (fs c2) = BootSector (fs c)
       \<and> prev c1 = prev c0 @ [cluster c0]
       \<and> fat_entry (fs c1) (cluster c0) = Inr (cluster c1 AND 0x0FFFFFFF)
       \<and> fat_entry (fs c1) (cluster c1) = Inr EOF"
proof -
  let ?f = "fs c" and ?st = "store (Device (fs c))" and ?e = "cluster c0"
  let ?F = "FatSz32 (BootSector (fs c))"
  have fats: "fatSectors ?f \<noteq> []"
    using e_end by (auto simp: fat_entry_def no_faults_def ReadFAT_def split: list.splits)
  then obtain fat0 rest where fs0: "fatSectors ?f = fat0 # rest"
    by (cases "fatSectors ?f") auto
  have len: "\<forall>l. length (?st l) = SectorSize" using wfd by (simp add: wf_device_def)
  note f0 = Seek_fields[OF sk]
  \<comment> \<open>Extend\<close>
  from ext sk obtain new f2 f3 where
    al: "Alloc (fs c0) = (Inr new, f2)" and
    w2: "WriteFAT f2 ?e new = (Inr (), f3)" and
    c1: "c1 = c0\<lparr>fs := f3, prev := prev c0 @ [?e], cluster := new\<rparr>"
    by (auto simp: Extend_def split: prod.splits sum.splits)
  obtain nc where nc: "NumClusters (fs c0) = Inr nc"
    using spc f0 by (simp add: NumClusters_def Let_def)
  have sz0: "unat (FatSz32 (BootSector (fs c0))) * 128 \<le> 2 ^ 32" using sz f0 by simp
  have fs00: "fatSectors (fs c0) = fat0 # rest" using fs0 f0 by simp
  have inv: "\<forall>k. free_slot (fs c0) k \<longrightarrow> 0 * 128 \<le> unat k" by simp
  have al0: "Alloc_loop (fs c0) 0 = (Inr new, f2)" using al by (simp add: Alloc_def)
  from Alloc_loop_Inr[OF nc sz0 fs00 inv al0] obtain fm where
    free: "free_slot (fs c0) new" and
    fm: "store (Device fm) = store (Device (fs c0))" "fatSectors fm = fatSectors (fs c0)"
      "BootSector fm = BootSector (fs c0)" and
    w1: "WriteFAT fm new EOF = (Inr (), f2)"
    by blast
  have free': "free_slot ?f new" using free free_slot_cong[of "fs c0" ?f new] f0 by simp
  have n_rng: "new div 128 < ?F" using free' by (simp add: free_slot_def in_fat_range)
  have n_zero: "fat_entry ?f new = Inr 0" using free' by (simp add: free_slot_def)
  have e0: "e \<noteq> 0" using e_ge by (auto simp: EOF_def)
  have ne: "new \<noteq> ?e" using n_zero e_end e0 by auto
  have wfm: "wf_fat fm" "wf_device (Device fm)"
    using wf wfd fm f0 by (simp_all add: wf_fat_def wf_device_def)
  have rm: "new div 128 < FatSz32 (BootSector fm)" using n_rng fm f0 by simp
  note fl2 = WriteFAT_fields[OF w1]
  have wf2: "wf_fat f2" "wf_device (Device f2)"
    using WriteFAT_wf[OF w1] wfm by simp_all
  have st2: "store (Device f2) = fat_write ?f new EOF ?st"
    using WriteFAT_fat_write[OF wfm(1) rm w1] fat_write_cong[of fm ?f] fm f0 by simp
  have r2: "?e div 128 < FatSz32 (BootSector f2)" using e_rng fl2 fm f0 by simp
  note fl3 = WriteFAT_fields[OF w2]
  have wf3: "wf_fat f3" "wf_device (Device f3)"
    using WriteFAT_wf[OF w2] wf2 by simp_all
  have st3: "store (Device f3) = fat_write ?f ?e new (store (Device f2))"
    using WriteFAT_fat_write[OF wf2(1) r2 w2] fat_write_cong[of f2 ?f] fl2 fm f0 by simp
  have fs3: "fatSectors f3 = fat0 # rest" using fl3 fl2 fm f0 fs0 by simp
  have fs2: "fatSectors f2 = fat0 # rest" using fl2 fm f0 fs0 by simp
  have fsm: "fatSectors fm = fat0 # rest" using fm f0 fs0 by simp
  \<comment> \<open>the entries after Extend\<close>
  have in2: "fat0 \<in> set (fatSectors f2)" and inm: "fat0 \<in> set (fatSectors fm)"
    using fs2 fsm by simp_all
  have e_new: "fat_entry f3 new = Inr EOF"
  proof -
    have "fat_raw (store (Device f2)) fat0 new AND 0x0FFFFFFF = EOF AND 0x0FFFFFFF"
      using WriteFAT_entries(1)[OF wfm(2,1) rm w1 inm] .
    moreover have "fat_raw (store (Device f3)) fat0 new = fat_raw (store (Device f2)) fat0 new"
      using WriteFAT_entries(3)[OF wf2(2,1) r2 w2 in2 ne] n_rng fl2 fm f0 by simp
    ultimately show ?thesis using fat_entry_raw[OF fs3, of new] by (simp add: EOF_masked)
  qed
  have e_old: "fat_entry f3 ?e = Inr (new AND 0x0FFFFFFF)"
    using WriteFAT_entries(1)[OF wf2(2,1) r2 w2 in2] fat_entry_raw[OF fs3, of ?e] by simp
  \<comment> \<open>Truncate\<close>
  obtain rs c1' where sk1: "Seek c1 0 SeekEnd = (rs, c1')" by (cases "Seek c1 0 SeekEnd")
  with tr obtain q where rs: "rs = Inr q" by (cases rs) (auto simp: Truncate_def)
  have ae: "at_end (fs c1) (cluster c1)" using e_new by (simp add: c1 at_end_def)
  from Seek_End_at_end[OF ae sk1[unfolded rs]]
  have cur1: "cluster c1' = new" "prev c1' = prev c0 @ [?e]" by (simp_all add: c1)
  note f1' = Seek_fields[OF sk1]
  from tr sk1 rs cur1 obtain f4 f5 where
    w3: "WriteFAT (fs c1') ?e EOF = (Inr (), f4)" and
    w4: "WriteFAT f4 new 0 = (Inr (), f5)" and
    c2: "c2 = c1'\<lparr>fs := f5, prev := take (length (prev c1') - 1) (prev c1'), cluster := ?e\<rparr>"
    by (auto simp: Truncate_def Let_def split: prod.splits sum.splits if_splits)
  have wf1': "wf_fat (fs c1')" "wf_device (Device (fs c1'))"
    using wf3 f1' by (simp_all add: c1 wf_fat_def wf_device_def)
  have r1': "?e div 128 < FatSz32 (BootSector (fs c1'))"
    using e_rng f1' fl3 fl2 fm f0 by (simp add: c1)
  have fsx: "fatSectors (fs c1') = fatSectors ?f" using f1' fl3 fl2 fm f0 by (simp add: c1)
  note fl4 = WriteFAT_fields[OF w3]
  have wf4: "wf_fat f4" "wf_device (Device f4)" using WriteFAT_wf[OF w3] wf1' by simp_all
  have st4: "store (Device f4) = fat_write ?f ?e EOF (store (Device f3))"
    using WriteFAT_fat_write[OF wf1'(1) r1' w3] fat_write_cong[OF fsx] f1' by (simp add: c1)
  have r4: "new div 128 < FatSz32 (BootSector f4)"
    using n_rng fl4 f1' fl3 fl2 fm f0 by (simp add: c1)
  have st5: "store (Device f5) = fat_write ?f new 0 (store (Device f4))"
    using WriteFAT_fat_write[OF wf4(1) r4 w4] fat_write_cong[of f4 ?f] fl4 fsx by simp
  \<comment> \<open>the four writes cancel\<close>
  have len1: "\<forall>l. length (fat_write ?f new EOF ?st l) = SectorSize"
    using fat_write_length[OF len] by simp
  have zero_all: "\<forall>off \<in> set (fatSectors ?f). fat_raw ?st off new AND 0x0fffffff = 0 AND 0x0fffffff"
  proof
    fix off assume "off \<in> set (fatSectors ?f)"
    from mirrors_fat_raw[OF mi fs0 n_rng this] n_zero fat_entry_raw[OF fs0, of new]
    show "fat_raw ?st off new AND 0x0fffffff = 0 AND 0x0fffffff" by simp
  qed
  have "store (Device f5)
      = fat_write ?f new 0 (fat_write ?f ?e EOF (fat_write ?f ?e new (fat_write ?f new EOF ?st)))"
    by (simp add: st5 st4 st3 st2)
  also have "\<dots> = fat_write ?f new 0 (fat_write ?f ?e EOF (fat_write ?f new EOF ?st))"
    by (simp add: fat_write_overwrite[OF len1])
  also have "\<dots> = fat_write ?f ?e EOF (fat_write ?f new 0 (fat_write ?f new EOF ?st))"
    by (simp add: fat_write_swap[OF wf n_rng e_rng ne])
  also have "\<dots> = fat_write ?f ?e EOF (fat_write ?f new 0 ?st)"
    by (simp add: fat_write_overwrite[OF len])
  also have "\<dots> = fat_write ?f ?e EOF ?st"
    by (simp add: fat_write_same[OF len zero_all])
  finally have store: "store (Device f5) = fat_write ?f ?e EOF ?st" .
  have fs5: "fatSectors f5 = fat0 # rest" "BootSector f5 = BootSector ?f"
    using WriteFAT_fields[OF w4] fl4 fsx fs0 f1' fl3 fl2 fm f0 by (simp_all add: c1)
  have raw: "fat_raw (store (Device f5)) off ?e AND 0x0FFFFFFF = EOF
        \<and> fat_raw (store (Device f5)) off ?e AND 0xF0000000 = fat_raw ?st off ?e AND 0xF0000000
        \<and> (\<forall>k. k \<noteq> ?e \<and> k div 128 < ?F \<longrightarrow>
               fat_raw (store (Device f5)) off k = fat_raw ?st off k)"
    if off: "off \<in> set (fatSectors ?f)" for off
    unfolding store
    using fat_write_entries(1,2)[OF len wf e_rng off, where v = EOF]
      fat_write_entries(3)[OF len wf e_rng off, where v = EOF]
    by (simp add: EOF_masked)
  have in0: "fat0 \<in> set (fatSectors ?f)" using fs0 by simp
  have e5_old: "fat_entry f5 ?e = Inr EOF"
    using raw[OF in0] fat_entry_raw[OF fs5(1), of ?e] by simp
  have e5_new: "fat_entry f5 new = Inr 0"
  proof -
    have "fat_raw (store (Device f5)) fat0 new = fat_raw ?st fat0 new"
      using raw[OF in0] ne n_rng by blast
    then show ?thesis
      using fat_entry_raw[OF fs5(1), of new] fat_entry_raw[OF fs0, of new] n_zero by simp
  qed
  have iff: "store (Device f5) = ?st \<longleftrightarrow> e = EOF"
  proof
    assume "store (Device f5) = ?st"
    then have "fat_entry f5 ?e = fat_entry ?f ?e"
      using fat_entry_raw[OF fs5(1), of ?e] fat_entry_raw[OF fs0, of ?e] by simp
    then show "e = EOF" using e5_old e_end by simp
  next
    assume eq: "e = EOF"
    have "\<forall>off \<in> set (fatSectors ?f). fat_raw ?st off ?e AND 0x0fffffff = EOF AND 0x0fffffff"
    proof
      fix off assume "off \<in> set (fatSectors ?f)"
      from mirrors_fat_raw[OF mi fs0 e_rng this] e_end eq fat_entry_raw[OF fs0, of ?e]
      show "fat_raw ?st off ?e AND 0x0fffffff = EOF AND 0x0fffffff" by (simp add: EOF_masked)
    qed
    from fat_write_same[OF len this] show "store (Device f5) = ?st" using store by simp
  qed
  have fl5: "fatSectors f5 = fatSectors ?f" using fs5(1) fs0 by simp
  have "\<forall>off \<in> set (fatSectors ?f).
      fat_raw (store (Device f5)) off ?e AND 0x0FFFFFFF = EOF
      \<and> fat_raw (store (Device f5)) off ?e AND 0xF0000000 = fat_raw ?st off ?e AND 0xF0000000
      \<and> (\<forall>k. k \<noteq> ?e \<and> k div 128 < ?F \<longrightarrow>
             fat_raw (store (Device f5)) off k = fat_raw ?st off k)"
    using raw by blast
  moreover have "cluster c2 = ?e" "prev c2 = prev c0" "fs c2 = f5" "cluster c1 = new"
    "prev c1 = prev c0 @ [?e]" "fs c1 = f3"
    using cur1 by (simp_all add: c2 c1)
  ultimately show ?thesis
    using store iff e5_old e5_new e_new e_old fl5 fs5(2) by simp
qed

lemma end_fs_fields:
  "BootSector (end_fs m) = example_bs" "fatSectors (end_fs m) = [32, 48]"
  "faults (Device (end_fs m)) = []"
  by (simp_all add: end_fs_def WriteFAT_def fatIndices_def blank_defs device_defs)

lemma end_fs_store:
  "store (Device (end_fs m)) =
     (\<lambda>_. replicate 512 0)
       (32 := fat_patch (replicate 512 0) 8 m, 48 := fat_patch (replicate 512 0) 8 m)"
  by (simp add: end_fs_def WriteFAT_def fatIndices_def blank_defs device_defs fat_patch_def)

lemma end_fs_entry_2: "fat_entry (end_fs m) 2 = Inr (m AND 0x0FFFFFFF)"
  by (simp add: fat_entry_value[OF end_fs_fields(2)] end_fs_store fat_patch_low)

lemma end_fs_entry_3: "fat_entry (end_fs m) 3 = Inr 0"
  by (simp add: fat_entry_value[OF end_fs_fields(2)] end_fs_store fat_patch_def
      Uint32_PutUint32_other) (simp add: Uint32_def)

lemma ReadFAT_end_fs: "ReadFAT (end_fs m) k = (fat_entry (end_fs m) k, end_fs m)"
  by (rule ReadFAT_no_faults) (simp_all add: end_fs_fields)

lemma Alloc_end_fs:
  assumes "m AND 0x0FFFFFFF \<noteq> 0"
  shows "Alloc (end_fs m) = Alloc_mark (end_fs m) 3"
proof -
  let ?blk = "fat_patch (replicate 512 0) 8 m"
  have r: "ReadSector (Device (end_fs m)) 32 = (Inr ?blk, Device (end_fs m))"
    by (simp add: ReadSector_no_faults end_fs_fields end_fs_store)
  have e2: "Uint32 ?blk 8 AND 0x0fffffff \<noteq> 0" using assms by (simp add: fat_patch_low)
  have e3: "Uint32 ?blk 12 AND 0x0fffffff = 0"
    by (simp add: fat_patch_def Uint32_PutUint32_other) (simp add: Uint32_def)
  have s: "Alloc_sector (end_fs m) ?blk 0 0 = Some (Alloc_mark (end_fs m) 3)"
    apply (subst Alloc_sector.simps, simp)
    apply (subst Alloc_sector.simps, simp)
    apply (subst Alloc_sector.simps, simp add: NumClusters_example end_fs_fields e2)
    apply (subst Alloc_sector.simps, simp add: NumClusters_example end_fs_fields e3 Alloc_mark_def)
    done
  show ?thesis
    unfolding Alloc_def
    by (subst Alloc_loop.simps) (simp add: r s end_fs_fields example_bs_fields)
qed


lemma WriteFAT_example:
  assumes "faults (Device f) = []" "fatSectors f = [32, 48]" "k < 128"
  shows "WriteFAT f k v =
     (Inr (), f\<lparr>Device := (Device f)\<lparr>store := (store (Device f))
        (32 := fat_patch (store (Device f) 32) (unat k * 4) v,
         48 := fat_patch (store (Device f) 48) (unat k * 4) v)\<rparr>\<rparr>)"
proof -
  have u: "unat k < 128" using assms(3) by (simp add: word_less_nat_alt)
  have "k div 128 = 0" using u by (simp add: word_unat_eq_iff unat_div)
  moreover have "unat (k mod 128) = unat k" using u by (simp add: unat_mod)
  ultimately show ?thesis
    using assms(1,2)
    by (simp add: WriteFAT_def fatIndices_def ReadSector_no_faults WriteSector_no_faults
        fat_patch_def Let_def)
qed

lemma end_fs_chain:
  assumes "EOF \<le> m AND 0x0FFFFFFF"
  shows "Seek (NewChain (end_fs m) 2) 0 SeekEnd = (Inr 0, NewChain (end_fs m) 2)"
  using assms
  by (simp add: Seek_End Seek_Current Seek_forward_numeral ReadFAT_end_fs end_fs_entry_2
      NewChain_def)


lemma fs_with_fields:
  "BootSector (fs_with S) = example_bs" "fatSectors (fs_with S) = [32, 48]"
  "faults (Device (fs_with S)) = []"
  by (simp_all add: fs_with_def blank_defs)

lemma end_fs_with: "end_fs m = fs_with (fat_patch (replicate 512 0) 8 m)"
  by (simp add: end_fs_def WriteFAT_def fatIndices_def blank_defs device_defs fat_patch_def
      fs_with_def)

lemma WriteFAT_fs_with:
  "k < 128 \<Longrightarrow> WriteFAT (fs_with S) k v = (Inr (), fs_with (fat_patch S (unat k * 4) v))"
  by (simp add: WriteFAT_example fs_with_fields) (simp add: fs_with_def blank_defs)

lemma fat_entry_fs_with:
  assumes "k < 128"
  shows "fat_entry (fs_with S) k = Inr (Uint32 S (unat k * 4) AND 0x0fffffff)"
proof -
  have u: "unat k < 128" using assms by (simp add: word_less_nat_alt)
  have "k div 128 = 0" using u by (simp add: word_unat_eq_iff unat_div)
  moreover have "unat (k mod 128) = unat k" using u by (simp add: unat_mod)
  ultimately show ?thesis
    by (simp add: fat_entry_value[OF fs_with_fields(2)]) (simp add: fs_with_def blank_defs)
qed

lemma ReadFAT_fs_with:
  "k < 128 \<Longrightarrow>
   ReadFAT (fs_with S) k = (Inr (Uint32 S (unat k * 4) AND 0x0fffffff), fs_with S)"
  using ReadFAT_no_faults[of "fs_with S" k] by (simp add: fs_with_fields fat_entry_fs_with)

lemma Uint32_fat_patch_other:
  "j + 4 \<le> i \<or> i + 4 \<le> j \<Longrightarrow> Uint32 (fat_patch b i v) j = Uint32 b j"
  by (simp add: fat_patch_def Uint32_PutUint32_other)

lemma Extend_end_fs:
  assumes "EOF \<le> m AND 0x0FFFFFFF"
  shows "Extend (NewChain (end_fs m) 2) =
     (Inr (), \<lparr>fs = fs_with (fat_patch (fat_patch (fat_patch (replicate 512 0) 8 m) 12 EOF) 8 3),
               cluster = 3, prev = [2]\<rparr>)"
proof -
  have nz: "m AND 0x0FFFFFFF \<noteq> 0" using assms by (auto simp: EOF_def)
  have "Alloc_mark (end_fs m) 3
      = (Inr 3, fs_with (fat_patch (fat_patch (replicate 512 0) 8 m) 12 EOF))"
    by (simp add: Alloc_mark_def end_fs_with WriteFAT_fs_with)
  then have a: "Alloc (end_fs m)
      = (Inr 3, fs_with (fat_patch (fat_patch (replicate 512 0) 8 m) 12 EOF))"
    by (simp add: Alloc_end_fs[OF nz])
  have c: "fs (NewChain (end_fs m) 2) = end_fs m" "cluster (NewChain (end_fs m) 2) = 2"
    "prev (NewChain (end_fs m) 2) = []"
    by (simp_all add: NewChain_def)
  show ?thesis
    unfolding Extend_def end_fs_chain[OF assms]
    by (simp add: c a WriteFAT_fs_with NewChain_def)
qed

lemma Truncate_end_fs:
  "Truncate \<lparr>fs = fs_with (fat_patch (fat_patch (fat_patch (replicate 512 0) 8 m) 12 EOF) 8 3),
             cluster = 3, prev = [2]\<rparr> =
     (Inr (), \<lparr>fs = fs_with (fat_patch (fat_patch (fat_patch (fat_patch (fat_patch
                  (replicate 512 0) 8 m) 12 EOF) 8 3) 8 EOF) 12 0),
               cluster = 2, prev = []\<rparr>)"
  by (simp add: Truncate_def Seek_End Seek_Current Seek_forward_numeral ReadFAT_fs_with
      WriteFAT_fs_with Uint32_fat_patch_other fat_patch_low length_fat_patch EOF_masked)


lemma WriteFAT_mirrors:
  assumes wf: "wf_fat f"
    and k: "k div 128 < FatSz32 (BootSector f)"
    and mi: "mirrors_identical f"
    and w: "WriteFAT f k v = (Inr u, f')"
  shows "mirrors_identical f'"
proof -
  let ?s = "k div 128"
  let ?S = "(\<lambda>off. ?s + off) ` set (fatSectors f)"
  have st: "store (Device f') =
      (\<lambda>l. if l \<in> ?S then fat_patch (store (Device f) l) (snd (fatIndices k)) v
            else store (Device f) l)"
    by (rule WriteFAT_closed[OF wf k w])
  have fld: "fatSectors f' = fatSectors f" "BootSector f' = BootSector f"
    using WriteFAT_fields[OF w] by simp_all
  show ?thesis
    unfolding mirrors_identical_def fld
  proof (intro ballI allI impI)
    fix off t
    assume off: "off \<in> set (fatSectors f)" and t: "t < FatSz32 (BootSector f)"
    then have hd: "hd (fatSectors f) \<in> set (fatSectors f)"
      by (cases "fatSectors f") auto
    have eq: "store (Device f) (t + off) = store (Device f) (t + hd (fatSectors f))"
      using mi off t by (simp add: mirrors_identical_def)
    have in1: "t + off \<in> ?S \<longleftrightarrow> t = ?s"
      using wf_fat_inj[OF wf off _ t k] off by auto
    have in2: "t + hd (fatSectors f) \<in> ?S \<longleftrightarrow> t = ?s"
      using wf_fat_inj[OF wf hd _ t k] hd by auto
    show "store (Device f') (t + off) = store (Device f') (t + hd (fatSectors f))"
    proof (cases "t = ?s")
      case True
      then show ?thesis using eq in1 in2 by (simp add: st)
    next
      case False
      then show ?thesis using eq in1 in2 by (simp add: st)
    qed
  qed
qed

lemma end_fs_wf: "wf_device (Device (end_fs m))" "wf_fat (end_fs m)" "mirrors_identical (end_fs m)"
proof -
  have w: "WriteFAT blank_fs 2 m = (Inr (), end_fs m)"
    using WriteFAT_no_faults[of blank_fs 2 m] by (auto simp: end_fs_def blank_defs)
  show "wf_device (Device (end_fs m))" using WriteFAT_wf(1)[OF w wf_blank] .
  show "wf_fat (end_fs m)" using WriteFAT_wf(2)[OF w wf_fat_blank] .
  have "(2 :: uint32) div 128 < FatSz32 (BootSector blank_fs)"
    by (simp add: blank_fs_def example_bs_fields)
  from WriteFAT_mirrors[OF wf_fat_blank this mirrors_blank w]
  show "mirrors_identical (end_fs m)" .
qed

theorem Extend_Truncate_effect_witness:
  "wf_device (Device (end_fs EOF)) \<and> wf_fat (end_fs EOF)
   \<and> SecPerClus (BootSector (end_fs EOF)) \<noteq> 0
   \<and> unat (FatSz32 (BootSector (end_fs EOF))) * 128 \<le> 2 ^ 32
   \<and> mirrors_identical (end_fs EOF)
   \<and> Seek (NewChain (end_fs EOF) 2) 0 SeekEnd = (Inr 0, NewChain (end_fs EOF) 2)
   \<and> (2 :: uint32) div 128 < FatSz32 (BootSector (end_fs EOF))
   \<and> fat_entry (end_fs EOF) 2 = Inr EOF
   \<and> fst (Extend (NewChain (end_fs EOF) 2)) = Inr ()
   \<and> cluster (snd (Extend (NewChain (end_fs EOF) 2))) = 3
   \<and> fst (Truncate (snd (Extend (NewChain (end_fs EOF) 2)))) = Inr ()
   \<and> store (Device (fs (snd (Truncate (snd (Extend (NewChain (end_fs EOF) 2)))))))
       = store (Device (end_fs EOF))
   \<and> fat_entry (fs (snd (Truncate (snd (Extend (NewChain (end_fs EOF) 2)))))) 2 = Inr EOF
   \<and> fat_entry (fs (snd (Truncate (snd (Extend (NewChain (end_fs EOF) 2)))))) 3 = Inr 0
   \<and> cluster (snd (Truncate (snd (Extend (NewChain (end_fs EOF) 2))))) = 2
   \<and> prev (snd (Truncate (snd (Extend (NewChain (end_fs EOF) 2))))) = []
   \<and> fat_entry (fs (snd (Extend (NewChain (end_fs EOF) 2)))) 2 = Inr 3
   \<and> fat_entry (fs (snd (Extend (NewChain (end_fs EOF) 2)))) 3 = Inr EOF"
proof -
  let ?c = "NewChain (end_fs EOF) 2"
  have m: "EOF \<le> EOF AND 0x0FFFFFFF" by (simp add: EOF_masked)
  have fsc: "fs ?c = end_fs EOF" "cluster ?c = 2" by (simp_all add: NewChain_def)
  have spc: "SecPerClus (BootSector (fs ?c)) \<noteq> 0"
    by (simp add: fsc end_fs_fields example_bs_fields)
  have sz: "unat (FatSz32 (BootSector (fs ?c))) * 128 \<le> 2 ^ 32"
    by (simp add: fsc end_fs_fields example_bs_fields)
  have rng: "cluster ?c div 128 < FatSz32 (BootSector (fs ?c))"
    by (simp add: fsc end_fs_fields example_bs_fields)
  have eof: "fat_entry (fs ?c) (cluster ?c) = Inr EOF"
    by (simp add: fsc end_fs_entry_2 EOF_masked)
  have ge: "EOF \<le> EOF" by simp
  have wfd: "wf_device (Device (fs ?c))" and wf: "wf_fat (fs ?c)"
    and mi: "mirrors_identical (fs ?c)"
    using end_fs_wf by (simp_all add: fsc)
  note sk = end_fs_chain[OF m]
  note ext = Extend_end_fs[OF m]
  note tr = Truncate_end_fs[of EOF]
  let ?c1 = "snd (Extend ?c)"
  let ?c2 = "snd (Truncate ?c1)"
  have ext': "Extend ?c = (Inr (), ?c1)" by (simp add: ext)
  have tr': "Truncate ?c1 = (Inr (), ?c2)" by (simp add: ext tr)
  note T = Extend_Truncate_effect[OF wfd wf spc sz mi sk rng eof ge ext' tr']
  have T1: "cluster ?c2 = cluster ?c" "prev ?c2 = prev ?c"
    "fat_entry (fs ?c2) (cluster ?c1) = Inr 0" "fat_entry (fs ?c2) (cluster ?c) = Inr EOF"
    "store (Device (fs ?c2)) = store (Device (fs ?c)) \<longleftrightarrow> EOF = EOF"
    "fat_entry (fs ?c1) (cluster ?c) = Inr (cluster ?c1 AND 0x0FFFFFFF)"
    "fat_entry (fs ?c1) (cluster ?c1) = Inr EOF"
    using T by blast+
  have c13: "cluster ?c1 = 3" by (simp add: ext)
  have pc: "prev ?c = []" by (simp add: NewChain_def)
  have st: "store (Device (fs ?c2)) = store (Device (end_fs EOF))"
    using T1(5) by (simp add: fsc)
  have rest: "fat_entry (fs ?c2) 2 = Inr EOF" "fat_entry (fs ?c2) 3 = Inr 0"
    "cluster ?c2 = 2" "prev ?c2 = []"
    "fat_entry (fs ?c1) 2 = Inr 3" "fat_entry (fs ?c1) 3 = Inr EOF"
    using T1(1,2,3,4,6,7) unfolding c13 fsc pc by simp_all
  have x: "fst (Extend ?c) = Inr ()" "fst (Truncate ?c1) = Inr ()"
    by (simp_all add: ext tr)
  show ?thesis
    using wfd wf spc sz mi sk rng eof st rest x c13 unfolding fsc by blast
qed

text \<open>
  Claim C6 as stated fails on a chain whose end-of-chain marker is not the constant EOF.
  On the example volume let cluster 2 be a chain of one cluster with the marker
  \<open>0x0FFFFFFF\<close> (an end-of-chain marker: it is at least \<open>0x0FFFFFF8\<close>). \<open>Extend\<close> and then
  \<open>Truncate\<close> succeed, and the entry of cluster 2 is \<open>0x0FFFFFF8\<close> afterwards: the FAT
  is not what it was.
\<close>

theorem Extend_Truncate_counterexample:
  "fat_entry (fs (NewChain (end_fs 0x0FFFFFFF) 2)) 2 = Inr 0x0FFFFFFF
   \<and> EOF \<le> (0x0FFFFFFF :: uint32)
   \<and> fst (Extend (NewChain (end_fs 0x0FFFFFFF) 2)) = Inr ()
   \<and> fst (Truncate (snd (Extend (NewChain (end_fs 0x0FFFFFFF) 2)))) = Inr ()
   \<and> fat_entry (fs (snd (Truncate (snd (Extend (NewChain (end_fs 0x0FFFFFFF) 2)))))) 2
       = Inr 0x0FFFFFF8
   \<and> store (Device (fs (snd (Truncate (snd (Extend (NewChain (end_fs 0x0FFFFFFF) 2)))))))
       \<noteq> store (Device (fs (NewChain (end_fs 0x0FFFFFFF) 2)))"
proof -
  let ?c = "NewChain (end_fs 0x0FFFFFFF) 2"
  let ?c2 = "snd (Truncate (snd (Extend ?c)))"
  have m: "EOF \<le> 0x0FFFFFFF AND 0x0FFFFFFF" by (simp add: EOF_def)
  note ext = Extend_end_fs[OF m]
  note tr = Truncate_end_fs[of "0x0FFFFFFF"]
  have fsc: "fs ?c = end_fs 0x0FFFFFFF" by (simp add: NewChain_def)
  have e0: "fat_entry (fs ?c) 2 = Inr 0x0FFFFFFF" by (simp add: fsc end_fs_entry_2)
  have e2: "fat_entry (fs ?c2) 2 = Inr 0x0FFFFFF8"
    by (simp add: ext tr fat_entry_fs_with Uint32_fat_patch_other fat_patch_low
        length_fat_patch) (simp add: EOF_def)
  have fl: "fatSectors (fs ?c2) = fatSectors (fs ?c)"
    by (simp add: ext tr fsc fs_with_fields end_fs_fields)
  have ne: "store (Device (fs ?c2)) \<noteq> store (Device (fs ?c))"
  proof
    assume "store (Device (fs ?c2)) = store (Device (fs ?c))"
    from fat_entry_cong[OF this fl, of 2] e0 e2 show False by simp
  qed
  have x1: "fst (Extend ?c) = Inr ()" by (simp add: ext)
  have x2: "fst (Truncate (snd (Extend ?c))) = Inr ()" by (simp add: ext tr)
  have "EOF \<le> (0x0FFFFFFF :: uint32)" by (simp add: EOF_def)
  with e0 e2 ne x1 x2 show ?thesis by blast
qed

section \<open>FormatFS\<close>



lemma Uint32_zero: "i + 4 \<le> n \<Longrightarrow> Uint32 (replicate n 0) i = 0"
  by (simp add: Uint32_def)


lemma fat_offsets_member:
  assumes "off \<in> set (fat_offsets n a sz)"
  obtains i where "i < n" "off = a + of_nat i * sz"
  using assms by (metis in_set_conv_nth length_fat_offsets nth_fat_offsets)







section \<open>The geometry of the data area\<close>

lemma wf_volume_geometry:
  assumes wv: "wf_volume f nc" and x: "2 \<le> x" "x < nc"
    and i: "i < unat (SecPerClus (BootSector f))"
  shows "unat (data_sector f x i) =
           unat (RsvdSecCnt (BootSector f))
           + unat (NumFATs (BootSector f)) * unat (FatSz32 (BootSector f))
           + (unat x - 2) * unat (SecPerClus (BootSector f)) + i"
    and "unat (data_sector f x i) < unat (TotSec32 (BootSector f))"
proof -
  let ?b = "BootSector f"
  let ?R = "unat (RsvdSecCnt ?b)" and ?N = "unat (NumFATs ?b)" and ?F = "unat (FatSz32 ?b)"
  let ?S = "unat (SecPerClus ?b)" and ?T = "unat (TotSec32 ?b)"
  have fit: "?R + ?N * ?F \<le> ?T" using wv by (simp add: wf_volume_def wf_fat_def Let_def)
  have T32: "?T < 2 ^ 32" using unsigned_less[of "TotSec32 ?b", where 'a=nat] by simp
  have S0: "0 < ?S" using wv by (simp add: wf_volume_def unat_gt_0)
  have nc: "nc = 2 + (TotSec32 ?b - (FatSz32 ?b * ucast (NumFATs ?b) + ucast (RsvdSecCnt ?b)))
      div ucast (SecPerClus ?b)"
    using wv by (simp add: wf_volume_def NumClusters_def Let_def split: if_splits)
  \<comment> \<open>the number of data sectors\<close>
  have fd: "FatSz32 ?b * ucast (NumFATs ?b) + ucast (RsvdSecCnt ?b) = (of_nat (?R + ?N * ?F) :: uint32)"
    by simp
  have ufd: "unat (of_nat (?R + ?N * ?F) :: uint32) = ?R + ?N * ?F"
    using of_nat_inverse[of "?R + ?N * ?F" "of_nat (?R + ?N * ?F) :: uint32"] fit T32 by simp
  let ?ns = "TotSec32 ?b - (FatSz32 ?b * ucast (NumFATs ?b) + ucast (RsvdSecCnt ?b))"
  have uns: "unat ?ns = ?T - (?R + ?N * ?F)"
    unfolding fd using ufd fit by (simp add: unat_sub word_le_nat_alt)
  have us: "unat (ucast (SecPerClus ?b) :: uint32) = ?S" by (rule unat_ucast_8_32)
  let ?q = "(?T - (?R + ?N * ?F)) div ?S"
  have uq: "unat (?ns div ucast (SecPerClus ?b)) = ?q" by (simp add: unat_div uns us)
  have unc: "unat nc = 2 + ?q"
  proof -
    have 3: "2 < unat nc" using x by (simp add: word_less_nat_alt word_le_nat_alt)
    have m: "unat nc = (2 + ?q) mod 2 ^ 32"
      unfolding nc using uq by (simp add: unat_word_ariths)
    have "?q < 2 ^ 32" using T32 by (meson div_le_dividend le_less_trans diff_le_self)
    show ?thesis
    proof (cases "2 + ?q < 2 ^ 32")
      case True
      then show ?thesis using m by simp
    next
      case False
      then have "(2 + ?q) mod 2 ^ 32 = 2 + ?q - 2 ^ 32"
        using \<open>?q < 2 ^ 32\<close> by (simp add: mod_if)
      then show ?thesis using m 3 \<open>?q < 2 ^ 32\<close> by simp
    qed
  qed
  have ux: "2 \<le> unat x" "unat x < 2 + ?q"
    using x unc by (simp_all add: word_less_nat_alt word_le_nat_alt)
  have "(unat x - 2) + 1 \<le> ?q" using ux by simp
  then have "((unat x - 2) + 1) * ?S \<le> ?q * ?S" by (rule mult_le_mono1)
  also have "\<dots> \<le> ?T - (?R + ?N * ?F)" by simp
  finally have b1: "(unat x - 2) * ?S + ?S \<le> ?T - (?R + ?N * ?F)" by (simp add: algebra_simps)
  let ?v = "?R + ?N * ?F + (unat x - 2) * ?S + i"
  have bound: "?v < ?T" using b1 i fit by simp
  have x2: "x - 2 = (of_nat (unat x - 2) :: uint32)"
    using ux(1) by (simp add: of_nat_diff)
  have "word_of_nat ?v = data_sector f x i"
    unfolding data_sector_def clusterSector_def Let_def
    by (simp add: x2)
  from of_nat_inverse[OF this] bound T32
  show "unat (data_sector f x i) = ?v" by simp
  then show "unat (data_sector f x i) < ?T" using bound by simp
qed

lemma wf_volume_cong:
  "wf_volume f nc \<Longrightarrow> BootSector f' = BootSector f \<Longrightarrow> fatSectors f' = fatSectors f \<Longrightarrow>
   wf_device (Device f') \<Longrightarrow> wf_volume f' nc"
  by (simp add: wf_volume_def wf_fat_def NumClusters_def)

lemma data_sector_cong:
  "BootSector f' = BootSector f \<Longrightarrow> data_sector f' x i = data_sector f x i"
  by (simp add: data_sector_def clusterSector_def)

lemma valid_in_range:
  assumes "wf_volume f nc" "x < nc"
  shows "x div 128 < FatSz32 (BootSector f)" "x < EOF"
proof -
  have "unat x < unat nc" using assms(2) by (simp add: word_less_nat_alt)
  then have "unat x < unat (FatSz32 (BootSector f)) * 128"
    using assms(1) by (simp add: wf_volume_def)
  then show "x div 128 < FatSz32 (BootSector f)" by (rule in_fat_range)
  have "nc \<le> EOF" using assms(1) by (simp add: wf_volume_def)
  with assms(2) show "x < EOF" by (rule order.strict_trans2)
qed

lemma data_sector_inj:
  assumes wv: "wf_volume f nc" and x: "2 \<le> x" "x < nc" and y: "2 \<le> y" "y < nc"
    and i: "i < unat (SecPerClus (BootSector f))" and j: "j < unat (SecPerClus (BootSector f))"
    and eq: "data_sector f x i = data_sector f y j"
  shows "x = y \<and> i = j"
proof -
  let ?S = "unat (SecPerClus (BootSector f))"
  have "(unat x - 2) * ?S + i = (unat y - 2) * ?S + j"
    using wf_volume_geometry(1)[OF wv x i] wf_volume_geometry(1)[OF wv y j] eq by simp
  then have e: "i + (unat x - 2) * ?S = j + (unat y - 2) * ?S" by (simp add: add.commute)
  then have "(i + (unat x - 2) * ?S) mod ?S = (j + (unat y - 2) * ?S) mod ?S" by simp
  then have ij: "i = j" using i j by simp
  with e i have "unat x - 2 = unat y - 2" by simp
  moreover have "2 \<le> unat x" "2 \<le> unat y" using x y by (simp_all add: word_le_nat_alt)
  ultimately have "unat x = unat y" by simp
  with ij show ?thesis by (simp add: word_unat_eq_iff)
qed

lemma data_sector_not_fat:
  assumes wv: "wf_volume f nc" and x: "2 \<le> x" "x < nc"
    and i: "i < unat (SecPerClus (BootSector f))"
    and off: "off \<in> set (fatSectors f)" and t: "t < FatSz32 (BootSector f)"
  shows "data_sector f x i \<noteq> t + off"
proof -
  let ?b = "BootSector f"
  let ?R = "unat (RsvdSecCnt ?b)" and ?N = "unat (NumFATs ?b)" and ?F = "unat (FatSz32 ?b)"
  have wf: "wf_fat f" using wv by (simp add: wf_volume_def)
  from off obtain j where j: "j < ?N" "off = ucast (RsvdSecCnt ?b) + of_nat j * FatSz32 ?b"
    unfolding wf_fat_offsets(1)[OF wf] by (rule fat_offsets_member)
  have u: "unat (t + off) = unat t + ?R + j * ?F"
    using unat_fat_sector[OF wf_fat_offsets(2)[OF wf] j(1) t] j(2) unat_ucast_16_32 by simp
  have "unat t < ?F" using t by (simp add: word_less_nat_alt)
  then have "unat t + j * ?F < (j + 1) * ?F" by simp
  also have "\<dots> \<le> ?N * ?F" using j(1) by (intro mult_le_mono1) simp
  finally have "unat (t + off) < ?R + ?N * ?F" using u by simp
  moreover have "?R + ?N * ?F \<le> unat (data_sector f x i)"
    using wf_volume_geometry(1)[OF wv x i] by simp
  ultimately show ?thesis by (auto simp: word_unat_eq_iff)
qed

section \<open>Reading and writing a cluster\<close>

lemma ReadCluster_loop_Inr:
  assumes "ReadCluster_loop f off res i = (Inr data, f')"
  shows "data = res @ concat (map (\<lambda>j. store (Device f) (off + of_nat j))
                        [i..<unat (SecPerClus (BootSector f))])
         \<and> store (Device f') = store (Device f) \<and> BootSector f' = BootSector f
         \<and> fatSectors f' = fatSectors f"
  using assms
proof (induction "unat (SecPerClus (BootSector f)) - i" arbitrary: f res i)
  case 0
  then have le: "unat (SecPerClus (BootSector f)) \<le> i" by simp
  then have "ReadCluster_loop f off res i = (Inr res, f)"
    by (subst ReadCluster_loop.simps) simp
  with "0.prems" have e: "data = res" "f' = f" by simp_all
  show ?case using le e by auto
next
  case (Suc m)
  then have i: "i < unat (SecPerClus (BootSector f))" by simp
  obtain rr d where r: "ReadSector (Device f) (off + of_nat i) = (rr, d)"
    by (cases "ReadSector (Device f) (off + of_nat i)")
  have unf: "ReadCluster_loop f off res i =
      (case rr of Inl e \<Rightarrow> (Inl e, f\<lparr>Device := d\<rparr>)
       | Inr sector \<Rightarrow> ReadCluster_loop (f\<lparr>Device := d\<rparr>) off (res @ sector) (i + 1))"
    using i r by (subst ReadCluster_loop.simps) (simp split: sum.splits)
  with Suc.prems obtain sector where rr: "rr = Inr sector" by (cases rr) auto
  have sec: "sector = store (Device f) (off + of_nat i)" using ReadSector_Inr r rr by blast
  have st: "store d = store (Device f)" using ReadSector_store[OF r] .
  let ?f1 = "f\<lparr>Device := d\<rparr>"
  have l: "ReadCluster_loop ?f1 off (res @ sector) (i + 1) = (Inr data, f')"
    using unf rr Suc.prems by simp
  have m: "m = unat (SecPerClus (BootSector ?f1)) - (i + 1)" using Suc.hyps(2) by simp
  have up: "[i..<unat (SecPerClus (BootSector f))] = i # [i + 1..<unat (SecPerClus (BootSector f))]"
    using i by (simp add: upt_conv_Cons)
  from Suc.hyps(1)[OF m l] show ?case
    using st sec by (simp add: up)
qed

lemma ReadCluster_Inr:
  assumes "ReadCluster c = (Inr data, c')"
  shows "data = cluster_data (fs c) (cluster c) \<and> cluster c' = cluster c \<and> prev c' = prev c
         \<and> store (Device (fs c')) = store (Device (fs c)) \<and> BootSector (fs c') = BootSector (fs c)
         \<and> fatSectors (fs c') = fatSectors (fs c)"
proof -
  obtain f' where l: "ReadCluster_loop (fs c) (clusterSector c) [] 0 = (Inr data, f')"
    and c': "c' = c\<lparr>fs := f'\<rparr>"
    using assms by (auto simp: ReadCluster_def split: prod.splits)
  have cs: "clusterSector c = clusterSector \<lparr>fs = fs c, cluster = cluster c, prev = []\<rparr>"
    by (simp add: clusterSector_def)
  from ReadCluster_loop_Inr[OF l] show ?thesis
    by (simp add: c' cluster_data_def data_sector_def cs)
qed

lemma copy_bytes_full:
  "length chunk = n \<Longrightarrow> n \<le> length src \<Longrightarrow> copy_bytes chunk src = take n src"
  by (simp add: copy_bytes_def)

lemma WriteCluster_loop_Inr:
  assumes "WriteCluster_loop f off data chunk i = (Inr u, f')"
    and "length data = unat (SecPerClus (BootSector f)) * SectorSize"
    and "length chunk = SectorSize"
  shows "(\<forall>j. i \<le> j \<and> j < unat (SecPerClus (BootSector f)) \<longrightarrow>
            store (Device f') (off + of_nat j) = take SectorSize (drop (j * SectorSize) data))
         \<and> (\<forall>l. (\<forall>j. i \<le> j \<and> j < unat (SecPerClus (BootSector f)) \<longrightarrow> l \<noteq> off + of_nat j)
               \<longrightarrow> store (Device f') l = store (Device f) l)
         \<and> BootSector f' = BootSector f \<and> fatSectors f' = fatSectors f"
  using assms
proof (induction "unat (SecPerClus (BootSector f)) - i" arbitrary: f chunk i)
  case 0
  then have le: "unat (SecPerClus (BootSector f)) \<le> i" by simp
  then have "WriteCluster_loop f off data chunk i = (Inr (), f)"
    by (subst WriteCluster_loop.simps) simp
  with "0.prems"(1) have "f' = f" by simp
  then show ?case using le by auto
next
  case (Suc m)
  let ?S = "unat (SecPerClus (BootSector f))"
  from Suc have i: "i < ?S" by simp
  let ?chunk = "copy_bytes chunk (drop (i * SectorSize) data)"
  have "(i + 1) * SectorSize \<le> ?S * SectorSize" using i by (intro mult_le_mono1) simp
  then have "SectorSize \<le> length (drop (i * SectorSize) data)"
    using Suc.prems(2) by simp
  then have ch: "?chunk = take SectorSize (drop (i * SectorSize) data)"
    using copy_bytes_full[OF Suc.prems(3)] by simp
  then have lch: "length ?chunk = SectorSize"
    using \<open>SectorSize \<le> length (drop (i * SectorSize) data)\<close> by simp
  obtain wr d where w: "WriteSector (Device f) (off + of_nat i) ?chunk = (wr, d)"
    by (cases "WriteSector (Device f) (off + of_nat i) ?chunk")
  have unf: "WriteCluster_loop f off data chunk i =
      (case wr of Inl e \<Rightarrow> (Inl e, f\<lparr>Device := d\<rparr>)
       | Inr _ \<Rightarrow> WriteCluster_loop (f\<lparr>Device := d\<rparr>) off data ?chunk (i + 1))"
    using i w by (subst WriteCluster_loop.simps) (simp add: Let_def split: sum.splits)
  with Suc.prems(1) obtain u1 where wr: "wr = Inr u1" by (cases wr) auto
  let ?f1 = "f\<lparr>Device := d\<rparr>"
  have l: "WriteCluster_loop ?f1 off data ?chunk (i + 1) = (Inr u, f')"
    using unf wr Suc.prems(1) by simp
  have st1: "store d = (store (Device f))(off + of_nat i := ?chunk)"
    using WriteSector_Inr[OF w[unfolded wr]] .
  have m: "m = unat (SecPerClus (BootSector ?f1)) - (i + 1)" using Suc.hyps(2) by simp
  have len1: "length data = unat (SecPerClus (BootSector ?f1)) * SectorSize"
    using Suc.prems(2) by simp
  note IH = Suc.hyps(1)[OF m l len1 lch]
  have S256: "?S < 2 ^ 32" using unsigned_less[of "SecPerClus (BootSector f)", where 'a=nat]
    by simp
  have ne: "off + of_nat i \<noteq> off + (of_nat j :: uint32)" if "i + 1 \<le> j" "j < ?S" for j
  proof -
    have "unat (of_nat i :: uint32) = i" "unat (of_nat j :: uint32) = j"
      using of_nat_inverse[of i "of_nat i :: uint32"] of_nat_inverse[of j "of_nat j :: uint32"]
        i that S256 by simp_all
    then have "(of_nat i :: uint32) \<noteq> of_nat j" using that by (auto simp: word_unat_eq_iff)
    then show ?thesis by simp
  qed
  have a: "store (Device f') (off + of_nat j) = take SectorSize (drop (j * SectorSize) data)"
    if j: "i \<le> j" "j < ?S" for j
  proof (cases "j = i")
    case True
    have "store (Device f') (off + of_nat i) = store (Device ?f1) (off + of_nat i)"
      using IH ne by simp
    then show ?thesis using True st1 ch by simp
  next
    case False
    then show ?thesis using IH j by simp
  qed
  have b: "store (Device f') l = store (Device f) l"
    if "\<forall>j. i \<le> j \<and> j < ?S \<longrightarrow> l \<noteq> off + of_nat j" for l
  proof -
    have "l \<noteq> off + of_nat i" using that i by simp
    moreover have "store (Device f') l = store (Device ?f1) l" using IH that by simp
    ultimately show ?thesis using st1 by simp
  qed
  show ?case using a b IH by simp
qed

lemma concat_chunks:
  "length data = n * k \<Longrightarrow> concat (map (\<lambda>j. take k (drop (j * k) data)) [0..<n]) = data"
proof (induction n arbitrary: data rule: nat.induct)
  case zero
  then show ?case by simp
next
  case (Suc n)
  have "concat (map (\<lambda>j. take k (drop (j * k) data)) [0..<Suc n])
      = concat (map (\<lambda>j. take k (drop (j * k) (take (n * k) data))) [0..<n])
        @ take k (drop (n * k) data)"
  proof -
    have "\<And>j. j < n \<Longrightarrow> take k (drop (j * k) (take (n * k) data)) = take k (drop (j * k) data)"
    proof -
      fix j assume j: "j < n"
      then have "(j + 1) * k \<le> n * k" by (intro mult_le_mono1) simp
      then have "k \<le> n * k - j * k" by (simp add: algebra_simps)
      then show "take k (drop (j * k) (take (n * k) data)) = take k (drop (j * k) data)"
        by (simp add: drop_take min_def)
    qed
    then have meq: "map (\<lambda>j. take k (drop (j * k) data)) [0..<n]
        = map (\<lambda>j. take k (drop (j * k) (take (n * k) data))) [0..<n]"
      by (intro map_cong) simp_all
    have "concat (map (\<lambda>j. take k (drop (j * k) data)) [0..<Suc n])
        = concat (map (\<lambda>j. take k (drop (j * k) data)) [0..<n]) @ take k (drop (n * k) data)"
      by simp
    then show ?thesis by (simp only: meq)
  qed
  also have "\<dots> = take (n * k) data @ take k (drop (n * k) data)"
    using Suc.IH[of "take (n * k) data"] Suc.prems by simp
  also have "\<dots> = data" using Suc.prems by (simp add: take_add[symmetric])
  finally show ?case .
qed

section \<open>The data area and the FAT do not meet\<close>

lemma concat_map_upt_cong:
  "(\<And>i. i < n \<Longrightarrow> g i = h i) \<Longrightarrow> concat (map g [0..<n]) = concat (map h [0..<n])"
proof -
  assume "\<And>i. i < n \<Longrightarrow> g i = h i"
  then have "map g [0..<n] = map h [0..<n]" by (intro map_cong) simp_all
  then show ?thesis by (rule arg_cong)
qed

lemma cluster_data_cong:
  "store (Device f') = store (Device f) \<Longrightarrow> BootSector f' = BootSector f \<Longrightarrow>
   cluster_data f' x = cluster_data f x"
  by (simp add: cluster_data_def data_sector_def clusterSector_def)

lemma chain_data_cong:
  "\<forall>x \<in> set xs. cluster_data f' x = cluster_data f x \<Longrightarrow> chain_data f' xs = chain_data f xs"
  by (simp add: chain_data_def cong: map_cong)

lemma length_cluster_data:
  "wf_device (Device f) \<Longrightarrow> length (cluster_data f x) = ClusterSize f"
  by (simp add: cluster_data_def ClusterSize_def wf_device_def length_concat comp_def
      sum_list_triv)

lemma WriteFAT_data:
  assumes wv: "wf_volume f nc" and k: "k div 128 < FatSz32 (BootSector f)"
    and w: "WriteFAT f k v = (Inr u, f')"
    and y: "2 \<le> y" "y < nc"
  shows "cluster_data f' y = cluster_data f y"
proof -
  have wf: "wf_fat f" using wv by (simp add: wf_volume_def)
  have bs: "BootSector f' = BootSector f" using WriteFAT_fields[OF w] by simp
  have "store (Device f') (data_sector f y i) = store (Device f) (data_sector f y i)"
    if i: "i < unat (SecPerClus (BootSector f))" for i
  proof -
    have "data_sector f y i \<notin> (\<lambda>off. k div 128 + off) ` set (fatSectors f)"
      using data_sector_not_fat[OF wv y i _ k] by auto
    then show ?thesis unfolding WriteFAT_closed[OF wf k w] by simp
  qed
  then have "concat (map (\<lambda>i. store (Device f') (data_sector f y i)) [0..<unat (SecPerClus (BootSector f))])
      = concat (map (\<lambda>i. store (Device f) (data_sector f y i)) [0..<unat (SecPerClus (BootSector f))])"
    by (rule concat_map_upt_cong)
  then show ?thesis
    by (simp add: cluster_data_def bs data_sector_cong[OF bs])
qed

lemma WriteFAT_other_entry:
  assumes wv: "wf_volume f nc" and x: "x div 128 < FatSz32 (BootSector f)"
    and w: "WriteFAT f x v = (Inr u, f')"
    and k: "k \<noteq> x" "k div 128 < FatSz32 (BootSector f)"
  shows "fat_entry f' k = fat_entry f k"
proof -
  have wf: "wf_fat f" and wfd: "wf_device (Device f)" and ne: "fatSectors f \<noteq> []"
    using wv by (simp_all add: wf_volume_def)
  from ne obtain fat0 rest where fs: "fatSectors f = fat0 # rest" by (cases "fatSectors f") auto
  then have fs': "fatSectors f' = fat0 # rest" using WriteFAT_fields[OF w] by simp
  have "fat0 \<in> set (fatSectors f)" using fs by simp
  from WriteFAT_entries(3)[OF wfd wf x w this k] show ?thesis
    by (simp add: fat_entry_raw[OF fs] fat_entry_raw[OF fs'])
qed

lemma WriteFAT_volume:
  assumes "wf_volume f nc" "WriteFAT f x v = (r, f')"
  shows "wf_volume f' nc"
proof (rule wf_volume_cong[OF assms(1)])
  show "BootSector f' = BootSector f" "fatSectors f' = fatSectors f"
    using WriteFAT_fields[OF assms(2)] by simp_all
  have "wf_device (Device f)" using assms(1) by (simp add: wf_volume_def)
  then show "wf_device (Device f')" by (rule WriteFAT_wf(1)[OF assms(2)])
qed

lemma masked_cluster:
  assumes "wf_volume f nc" "x < nc"
  shows "x AND 0x0FFFFFFF = x"
proof -
  have "x < EOF" using valid_in_range(2)[OF assms] .
  then have "unat x < 2 ^ 28" by (simp add: word_less_nat_alt EOF_def)
  then have "take_bit 28 (unat x) = unat x" by (simp add: take_bit_nat_eq_self)
  then have "unat (take_bit 28 x) = unat x" by (simp add: unsigned_take_bit_eq)
  then have "take_bit 28 x = x" by (simp add: word_unat_eq_iff)
  then show ?thesis by (simp add: low_mask take_bit_eq_mask)
qed

section \<open>The effect of \<open>WriteCluster\<close>\<close>

lemma WriteCluster_effect:
  assumes wv: "wf_volume (fs c) nc" and x: "2 \<le> cluster c" "cluster c < nc"
    and w: "WriteCluster c data = (Inr u, c')"
  shows "cluster c' = cluster c" "prev c' = prev c"
    "BootSector (fs c') = BootSector (fs c)" "fatSectors (fs c') = fatSectors (fs c)"
    "length data = ClusterSize (fs c)"
    "cluster_data (fs c') (cluster c) = data"
    "\<And>y. 2 \<le> y \<Longrightarrow> y < nc \<Longrightarrow> y \<noteq> cluster c \<Longrightarrow>
       cluster_data (fs c') y = cluster_data (fs c) y"
    "\<And>k. k div 128 < FatSz32 (BootSector (fs c)) \<Longrightarrow> fat_entry (fs c') k = fat_entry (fs c) k"
    "wf_volume (fs c') nc"
proof -
  let ?f = "fs c" and ?S = "unat (SecPerClus (BootSector (fs c)))"
  let ?off = "clusterSector c"
  have len: "length data = ClusterSize ?f"
    using w by (auto simp: WriteCluster_def split: if_splits)
  obtain f' where l: "WriteCluster_loop ?f ?off data (replicate SectorSize 0) 0 = (Inr u, f')"
    and c': "c' = c\<lparr>fs := f'\<rparr>"
    using w len by (auto simp: WriteCluster_def split: prod.splits)
  have len': "length data = ?S * SectorSize" using len by (simp add: ClusterSize_def)
  note E = WriteCluster_loop_Inr[OF l len', simplified]
  have bs: "BootSector f' = BootSector ?f" and fsec: "fatSectors f' = fatSectors ?f"
    using E by simp_all
  have ds: "?off + of_nat j = data_sector ?f (cluster c) j" for j
    by (simp add: data_sector_def clusterSector_def)
  have wr: "store (Device f') (data_sector ?f (cluster c) j)
              = take SectorSize (drop (j * SectorSize) data)" if "j < ?S" for j
    using E that by (simp add: ds)
  have fr: "store (Device f') l = store (Device ?f) l"
    if "\<forall>j < ?S. l \<noteq> data_sector ?f (cluster c) j" for l
    using E that by (simp add: ds)
  show "cluster c' = cluster c" "prev c' = prev c" by (simp_all add: c')
  show b: "BootSector (fs c') = BootSector (fs c)" by (simp add: c' bs)
  show fz: "fatSectors (fs c') = fatSectors (fs c)" by (simp add: c' fsec)
  show "length data = ClusterSize (fs c)" by (rule len)
  have "concat (map (\<lambda>j. store (Device f') (data_sector ?f (cluster c) j)) [0..<?S])
      = concat (map (\<lambda>j. take SectorSize (drop (j * SectorSize) data)) [0..<?S])"
    using wr by (rule concat_map_upt_cong)
  then have "cluster_data f' (cluster c)
      = concat (map (\<lambda>j. take SectorSize (drop (j * SectorSize) data)) [0..<?S])"
    by (simp add: cluster_data_def bs data_sector_cong[OF bs])
  then show "cluster_data (fs c') (cluster c) = data"
    using concat_chunks[OF len'] by (simp add: c')
  show "cluster_data (fs c') y = cluster_data (fs c) y"
    if y: "2 \<le> y" "y < nc" "y \<noteq> cluster c" for y
  proof -
    have "store (Device f') (data_sector ?f y i) = store (Device ?f) (data_sector ?f y i)"
      if i: "i < ?S" for i
    proof (rule fr, intro allI impI)
      fix j assume j: "j < ?S"
      show "data_sector ?f y i \<noteq> data_sector ?f (cluster c) j"
        using data_sector_inj[OF wv y(1,2) x i j] y(3) by blast
    qed
    then have "concat (map (\<lambda>i. store (Device f') (data_sector ?f y i)) [0..<?S])
        = concat (map (\<lambda>i. store (Device ?f) (data_sector ?f y i)) [0..<?S])"
      by (rule concat_map_upt_cong)
    then show ?thesis
      by (simp add: c' cluster_data_def bs data_sector_cong[OF bs])
  qed
  have wfd: "wf_device (Device f')"
    unfolding wf_device_def
  proof
    fix l
    show "length (store (Device f') l) = SectorSize"
    proof (cases "\<forall>j < ?S. l \<noteq> data_sector ?f (cluster c) j")
      case True
      then show ?thesis using fr wv by (simp add: wf_volume_def wf_device_def)
    next
      case False
      then obtain j where j: "j < ?S" "l = data_sector ?f (cluster c) j" by blast
      have "(j + 1) * SectorSize \<le> ?S * SectorSize" using j(1) by (intro mult_le_mono1) simp
      then show ?thesis using wr[OF j(1)] j(2) len' by simp
    qed
  qed
  show "wf_volume (fs c') nc"
    using wf_volume_cong[OF wv _ _ wfd] bs fsec by (simp add: c')
  show "fat_entry (fs c') k = fat_entry (fs c) k" if k: "k div 128 < FatSz32 (BootSector (fs c))" for k
  proof -
    have ne: "fatSectors ?f \<noteq> []" using wv by (simp add: wf_volume_def)
    then obtain fat0 rest where fs: "fatSectors ?f = fat0 # rest" by (cases "fatSectors ?f") auto
    have "fat0 + k div 128 = k div 128 + fat0" by simp
    have "\<forall>j < ?S. fat0 + k div 128 \<noteq> data_sector ?f (cluster c) j"
    proof (intro allI impI)
      fix j assume j: "j < ?S"
      have "fat0 \<in> set (fatSectors ?f)" using fs by simp
      from data_sector_not_fat[OF wv x j this k]
      show "fat0 + k div 128 \<noteq> data_sector ?f (cluster c) j" by (simp add: add.commute)
    qed
    from fr[OF this] show ?thesis
      using fs fsec by (simp add: c' fat_entry_value)
  qed
qed

section \<open>Chains that end in a marker\<close>

lemma linked_cong_butlast:
  "\<forall>z \<in> set (butlast xs). fat_entry f' z = fat_entry f z \<Longrightarrow> linked f' xs = linked f xs"
  by (induction f xs rule: linked.induct) auto

lemma chain_entry_nonzero:
  "linked f xs \<Longrightarrow> at_end f (last xs) \<Longrightarrow> \<forall>x \<in> set xs. 2 \<le> x \<Longrightarrow> x \<in> set xs \<Longrightarrow>
   fat_entry f x \<noteq> Inr 0"
proof (induction f xs rule: linked.induct)
  case (1 f)
  then show ?case by simp
next
  case (2 f y)
  then show ?case by (auto simp: at_end_def EOF_def)
next
  case (3 f a b r)
  show ?case
  proof (cases "x = a")
    case True
    have "2 \<le> b" using "3.prems"(3) by simp
    then have "b \<noteq> 0" by auto
    then show ?thesis using True "3.prems"(1) by simp
  next
    case False
    then show ?thesis using 3 by simp
  qed
qed

lemma chain_ok_entries:
  assumes "chain_ok f nc xs" "wf_volume f' nc" "\<forall>x \<in> set xs. fat_entry f' x = fat_entry f x"
  shows "chain_ok f' nc xs"
proof -
  have ne: "xs \<noteq> []" using assms(1) by (simp add: chain_ok_def)
  then have "last xs \<in> set xs" by simp
  then have "at_end f' (last xs) = at_end f (last xs)" using assms(3) by (simp add: at_end_def)
  moreover have "linked f' xs = linked f xs" using assms(3) by (rule linked_cong_on)
  ultimately show ?thesis using assms(1,2) by (simp add: chain_ok_def)
qed

lemma chain_ok_distinct:
  assumes "chain_ok f nc xs"
  shows "distinct xs"
proof (rule chain_distinct)
  show "linked f xs" "xs \<noteq> []" "at_end f (last xs)" using assms by (simp_all add: chain_ok_def)
  show "\<forall>y \<in> set xs. y < EOF"
    using assms valid_in_range(2)[of f nc] by (auto simp: chain_ok_def)
qed

lemma chain_ok_range:
  assumes "chain_ok f nc xs" "x \<in> set xs"
  shows "2 \<le> x" "x < nc" "x div 128 < FatSz32 (BootSector f)"
proof -
  show a: "2 \<le> x" "x < nc" using assms by (auto simp: chain_ok_def)
  have "wf_volume f nc" using assms(1) by (simp add: chain_ok_def)
  from valid_in_range(1)[OF this a(2)] show "x div 128 < FatSz32 (BootSector f)" .
qed

section \<open>The effect of \<open>Extend\<close>\<close>

lemma Extend_effect:
  assumes ok: "chain_ok (fs c) nc (prev c @ [cluster c])"
    and e: "Extend c = (Inr u, c')"
  shows "prev c' = prev c @ [cluster c]"
    "cluster c' \<notin> set (prev c @ [cluster c])"
    "chain_ok (fs c') nc (prev c @ [cluster c, cluster c'])"
    "BootSector (fs c') = BootSector (fs c)"
    "\<And>y. 2 \<le> y \<Longrightarrow> y < nc \<Longrightarrow> cluster_data (fs c') y = cluster_data (fs c) y"
    "\<And>k. k < nc \<Longrightarrow> k \<noteq> cluster c \<Longrightarrow> k \<noteq> cluster c' \<Longrightarrow>
       fat_entry (fs c') k = fat_entry (fs c) k"
proof -
  let ?xs = "prev c @ [cluster c]"
  have wv: "wf_volume (fs c) nc" and lk: "linked (fs c) ?xs"
    and ae: "at_end (fs c) (cluster c)"
    using ok by (simp_all add: chain_ok_def)
  obtain p c1 where s: "Seek c 0 SeekEnd = (Inr p, c1)"
    using e by (cases "Seek c 0 SeekEnd") (auto simp: Extend_def split: sum.splits)
  obtain new f2 where a: "Alloc (fs c1) = (Inr new, f2)"
    using e s by (cases "Alloc (fs c1)") (auto simp: Extend_def split: sum.splits)
  obtain u3 f3 where w: "WriteFAT f2 (cluster c1) new = (Inr u3, f3)"
    and c': "c' = c1\<lparr>fs := f3, prev := prev c1 @ [cluster c1], cluster := new\<rparr>"
    using e s a by (cases "WriteFAT f2 (cluster c1) new") (auto simp: Extend_def split: sum.splits)
  have pos: "cluster c1 = cluster c" "prev c1 = prev c"
    using Seek_End_at_end[OF ae s] by simp_all
  have f1: "store (Device (fs c1)) = store (Device (fs c))"
    "fatSectors (fs c1) = fatSectors (fs c)" "BootSector (fs c1) = BootSector (fs c)"
    using Seek_fields[OF s] by simp_all
  have wfd: "wf_device (Device (fs c))" using wv by (simp add: wf_volume_def)
  have wv1: "wf_volume (fs c1) nc"
    using wf_volume_cong[OF wv f1(3) f1(2)] wfd f1(1) by (simp add: wf_device_def)
  have nc1: "NumClusters (fs c1) = Inr nc"
    and sz1: "unat (FatSz32 (BootSector (fs c1))) * 128 \<le> 2 ^ 32"
    and ne1: "fatSectors (fs c1) \<noteq> []"
    using wv1 by (simp_all add: wf_volume_def)
  from ne1 obtain fat0 rest where fs1: "fatSectors (fs c1) = fat0 # rest"
    by (cases "fatSectors (fs c1)") auto
  have res: "Alloc_loop (fs c1) 0 = (Inr new, f2)" using a by (simp add: Alloc_def)
  have inv: "\<forall>k. free_slot (fs c1) k \<longrightarrow> 0 * 128 \<le> unat k" by simp
  from Alloc_loop_Inr[OF nc1 sz1 fs1 inv res] obtain fm where
    free: "free_slot (fs c1) new"
    and fm: "store (Device fm) = store (Device (fs c1))" "fatSectors fm = fatSectors (fs c1)"
      "BootSector fm = BootSector (fs c1)"
    and wm: "WriteFAT fm new EOF = (Inr (), f2)"
    by blast
  have new: "2 \<le> new" "new < nc" and new0: "fat_entry (fs c1) new = Inr 0"
    using free nc1 by (simp_all add: free_slot_def)
  have e1: "fat_entry (fs c1) k = fat_entry (fs c) k" for k
    using fat_entry_cong[OF f1(1) f1(2)] .
  have notin: "new \<notin> set ?xs"
  proof
    assume "new \<in> set ?xs"
    moreover have "\<forall>x \<in> set ?xs. 2 \<le> x" using ok by (simp add: chain_ok_def)
    moreover have "at_end (fs c) (last ?xs)" using ae by simp
    ultimately have "fat_entry (fs c) new \<noteq> Inr 0" using chain_entry_nonzero[OF lk] by blast
    then show False using new0 e1 by simp
  qed
  have wvm: "wf_volume fm nc"
    using wf_volume_cong[OF wv1 fm(3) fm(2)] wv1 fm(1) by (simp add: wf_volume_def wf_device_def)
  have bsm: "BootSector fm = BootSector (fs c)" using fm(3) f1(3) by simp
  have rng: "k div 128 < FatSz32 (BootSector fm)" if "k < nc" for k
    using valid_in_range(1)[OF wvm that] .
  have em: "fat_entry fm k = fat_entry (fs c) k" for k
    using fat_entry_cong[OF fm(1) fm(2)] e1 by simp
  have wv2: "wf_volume f2 nc" using WriteFAT_volume[OF wvm wm] .
  have bs2: "BootSector f2 = BootSector (fs c)" using WriteFAT_fields[OF wm] bsm by simp
  have e2new: "fat_entry f2 new = Inr EOF"
    using WriteFAT_fat_entry[OF _ _ wm] wvm by (simp add: wf_volume_def EOF_masked)
  have e2: "fat_entry f2 k = fat_entry (fs c) k" if "k \<noteq> new" "k < nc" for k
    using WriteFAT_other_entry[OF wvm rng[OF new(2)] wm that(1) rng[OF that(2)]] em by simp
  have d2: "cluster_data f2 y = cluster_data (fs c) y" if "2 \<le> y" "y < nc" for y
    using WriteFAT_data[OF wvm rng[OF new(2)] wm that]
      cluster_data_cong[OF fm(1) fm(3)] cluster_data_cong[OF f1(1) f1(3)] by simp
  have cur: "2 \<le> cluster c" "cluster c < nc" using chain_ok_range[OF ok, of "cluster c"] by simp_all
  have w': "WriteFAT f2 (cluster c) new = (Inr u3, f3)" using w pos by simp
  have rng2: "k div 128 < FatSz32 (BootSector f2)" if "k < nc" for k
    using valid_in_range(1)[OF wv2 that] .
  have wv3: "wf_volume f3 nc" using WriteFAT_volume[OF wv2 w'] .
  have bs3: "BootSector f3 = BootSector (fs c)" using WriteFAT_fields[OF w'] bs2 by simp
  have e3cur: "fat_entry f3 (cluster c) = Inr new"
    using WriteFAT_fat_entry[OF _ _ w'] wv2 masked_cluster[OF wv new(2)]
    by (simp add: wf_volume_def)
  have e3: "fat_entry f3 k = fat_entry f2 k" if "k \<noteq> cluster c" "k < nc" for k
    using WriteFAT_other_entry[OF wv2 rng2[OF cur(2)] w' that(1) rng2[OF that(2)]] .
  have d3: "cluster_data f3 y = cluster_data (fs c) y" if "2 \<le> y" "y < nc" for y
    using WriteFAT_data[OF wv2 rng2[OF cur(2)] w' that] d2[OF that] by simp
  have neq: "new \<noteq> cluster c" using notin by auto
  have dist: "distinct ?xs" using chain_ok_distinct[OF ok] .
  have "\<forall>z \<in> set (butlast ?xs). fat_entry f3 z = fat_entry (fs c) z"
  proof
    fix z assume "z \<in> set (butlast ?xs)"
    then have z: "z \<in> set (prev c)" by simp
    then have "z \<noteq> cluster c" using dist by auto
    moreover have "z \<noteq> new" using notin z by auto
    moreover have "z < nc" using chain_ok_range(2)[OF ok, of z] z by simp
    ultimately show "fat_entry f3 z = fat_entry (fs c) z" using e3 e2 by simp
  qed
  then have "linked f3 ?xs" using linked_cong_butlast[of ?xs f3 "fs c"] lk by simp
  then have lk3: "linked f3 (prev c @ [cluster c, new])" using e3cur by (rule linked_snoc)
  have "fat_entry f3 new = Inr EOF" using e3[OF neq new(2)] e2new by simp
  then have ae3: "at_end f3 new" by (simp add: at_end_def)
  have val: "\<forall>x \<in> set (prev c @ [cluster c, new]). 2 \<le> x \<and> x < nc"
    using ok new by (auto simp: chain_ok_def)
  show "prev c' = prev c @ [cluster c]" by (simp add: c' pos)
  show "cluster c' \<notin> set (prev c @ [cluster c])" using notin by (simp add: c')
  show "chain_ok (fs c') nc (prev c @ [cluster c, cluster c'])"
    using wv3 lk3 ae3 val by (simp add: chain_ok_def c')
  show "BootSector (fs c') = BootSector (fs c)" by (simp add: c' bs3)
  show "cluster_data (fs c') y = cluster_data (fs c) y" if "2 \<le> y" "y < nc" for y
    using d3[OF that] by (simp add: c')
  show "fat_entry (fs c') k = fat_entry (fs c) k"
    if "k < nc" "k \<noteq> cluster c" "k \<noteq> cluster c'" for k
  proof -
    have "k \<noteq> new" using that(3) by (simp add: c')
    then show ?thesis using e3[OF that(2,1)] e2[OF _ that(1)] by (simp add: c')
  qed
qed

section \<open>Writing the last cluster of a chain\<close>

lemma WriteCluster_chain:
  assumes ok: "chain_ok (fs c) nc (prev c @ [cluster c])"
    and w: "WriteCluster c data = (Inr u, c')"
  shows "cluster c' = cluster c" "prev c' = prev c"
    "BootSector (fs c') = BootSector (fs c)"
    "length data = ClusterSize (fs c)"
    "chain_ok (fs c') nc (prev c @ [cluster c])"
    "cluster_data (fs c') (cluster c) = data"
    "\<And>y. 2 \<le> y \<Longrightarrow> y < nc \<Longrightarrow> y \<noteq> cluster c \<Longrightarrow>
       cluster_data (fs c') y = cluster_data (fs c) y"
proof -
  have wv: "wf_volume (fs c) nc" using ok by (simp add: chain_ok_def)
  have cur: "2 \<le> cluster c" "cluster c < nc" using chain_ok_range[OF ok, of "cluster c"] by simp_all
  note E = WriteCluster_effect[OF wv cur w]
  show "cluster c' = cluster c" "prev c' = prev c" "BootSector (fs c') = BootSector (fs c)"
    "length data = ClusterSize (fs c)" "cluster_data (fs c') (cluster c) = data"
    using E by simp_all
  show "cluster_data (fs c') y = cluster_data (fs c) y"
    if "2 \<le> y" "y < nc" "y \<noteq> cluster c" for y
    using E(7)[OF that] .
  have "\<forall>x \<in> set (prev c @ [cluster c]). fat_entry (fs c') x = fat_entry (fs c) x"
  proof
    fix x assume "x \<in> set (prev c @ [cluster c])"
    from chain_ok_range(3)[OF ok this] show "fat_entry (fs c') x = fat_entry (fs c) x"
      by (rule E(8))
  qed
  with ok E(9) show "chain_ok (fs c') nc (prev c @ [cluster c])" by (rule chain_ok_entries)
qed

section \<open>The loop of \<open>ReadFrom\<close>\<close>

lemma chain_data_append: "chain_data f (xs @ ys) = chain_data f xs @ chain_data f ys"
  by (simp add: chain_data_def)

lemma chain_data_single: "chain_data f [x] = cluster_data f x"
  by (simp add: chain_data_def)

lemma ClusterSize_pos:
  "wf_volume f nc \<Longrightarrow> 0 < ClusterSize f"
  by (simp add: wf_volume_def ClusterSize_def SectorSize_def unat_gt_0)

lemma ClusterSize_cong: "BootSector f' = BootSector f \<Longrightarrow> ClusterSize f' = ClusterSize f"
  by (simp add: ClusterSize_def)

lemma ReadFull_empty: "0 < k \<Longrightarrow> ReadFull [] (replicate k 0) = (0, ReadEOF, replicate k 0, [])"
  by (simp add: ReadFull_def)

lemma ReadFull_short:
  "r \<noteq> [] \<Longrightarrow> length r < k \<Longrightarrow>
   ReadFull r (replicate k 0) = (length r, ReadUnexpectedEOF, r @ replicate (k - length r) 0, [])"
  by (simp add: ReadFull_def)

lemma ReadFull_full:
  "0 < k \<Longrightarrow> k \<le> length r \<Longrightarrow> ReadFull r (replicate k 0) = (k, ReadNil, take k r, drop k r)"
  by (auto simp: ReadFull_def)

lemma ReadFrom_loop_step:
  assumes "ReadFull r (replicate (ClusterSize (fs c)) 0) = (m, st, buf, r')" "st \<noteq> ReadEOF"
    and "ReadFrom_loop c r n b = Some ((res, None), c')"
  shows "\<exists>u1 c1 u2 c2. (if b then Extend c else (Inr (), c)) = (Inr u1, c1)
           \<and> WriteCluster c1 buf = (Inr u2, c2)
           \<and> (if st = ReadUnexpectedEOF then res = n + int m \<and> c' = c2
              else ReadFrom_loop c2 r' (n + int m) True = Some ((res, None), c'))"
  using assms(3) unfolding ReadFrom_loop.simps[of c r n b] assms(1)
  using assms(2) by (auto split: prod.splits sum.splits if_splits)

lemma step_effect:
  assumes ok: "chain_ok (fs c) nc (prev c @ [cluster c])"
    and st: "(if b then Extend c else (Inr (), c)) = (Inr u1, c1)"
    and wc: "WriteCluster c1 buf = (Inr u2, c2)"
  shows "\<exists>t. prev c2 @ [cluster c2] = (if b then prev c @ [cluster c] else prev c) @ [t]
           \<and> t \<notin> set (if b then prev c @ [cluster c] else prev c)
           \<and> chain_ok (fs c2) nc (prev c2 @ [cluster c2])
           \<and> BootSector (fs c2) = BootSector (fs c)
           \<and> (\<forall>x \<in> set (if b then prev c @ [cluster c] else prev c).
                 cluster_data (fs c2) x = cluster_data (fs c) x)
           \<and> cluster_data (fs c2) t = buf \<and> length buf = ClusterSize (fs c)"
proof (cases b)
  case True
  then have e: "Extend c = (Inr u1, c1)" using st by simp
  note E = Extend_effect[OF ok e]
  have ok1: "chain_ok (fs c1) nc (prev c1 @ [cluster c1])" using E(1,3) by simp
  note W = WriteCluster_chain[OF ok1 wc]
  have "\<forall>x \<in> set (prev c @ [cluster c]). cluster_data (fs c2) x = cluster_data (fs c) x"
  proof
    fix x assume x: "x \<in> set (prev c @ [cluster c])"
    then have r: "2 \<le> x" "x < nc" using chain_ok_range[OF ok x] by simp_all
    have "x \<noteq> cluster c1" using E(2) x by auto
    from W(7)[OF r this] E(5)[OF r] show "cluster_data (fs c2) x = cluster_data (fs c) x" by simp
  qed
  moreover have "length buf = ClusterSize (fs c)"
    using W(4) ClusterSize_cong[OF E(4)] by simp
  ultimately show ?thesis
    using True E(1,2,4) W(1,2,3,5,6) by (intro exI[of _ "cluster c1"]) simp
next
  case False
  then have c1: "c1 = c" using st by simp
  note W = WriteCluster_chain[OF ok wc[unfolded c1]]
  have d: "distinct (prev c @ [cluster c])" using chain_ok_distinct[OF ok] .
  have "\<forall>x \<in> set (prev c). cluster_data (fs c2) x = cluster_data (fs c) x"
  proof
    fix x assume x: "x \<in> set (prev c)"
    then have r: "2 \<le> x" "x < nc" using chain_ok_range[OF ok, of x] by simp_all
    have "x \<noteq> cluster c" using d x by auto
    from W(7)[OF r this] show "cluster_data (fs c2) x = cluster_data (fs c) x" .
  qed
  then show ?thesis
    using False d W(1,2,3,4,5,6) by (intro exI[of _ "cluster c"]) simp
qed

lemma ceil_div_step:
  assumes "0 < k" "k \<le> (n::nat)"
  shows "(n + k - 1) div k = Suc ((n - k + k - 1) div k)"
proof -
  have e: "n + k - 1 = (n - 1) + k" using assms by linarith
  have "((n - 1) + k) div k = (n - 1) div k + 1" using assms by (intro div_add_self2) simp
  then have "(n + k - 1) div k = (n - 1) div k + 1" unfolding e .
  moreover have "n - k + k - 1 = n - 1" using assms by linarith
  ultimately show ?thesis by (simp only: Suc_eq_plus1)
qed

lemma ceil_div_bound:
  assumes "0 < k"
  shows "(n::nat) \<le> ((n + k - 1) div k) * k"
proof -
  have "n + k - 1 < ((n + k - 1) div k) * k + k"
    using assms div_mult_mod_eq[of "n + k - 1" k] mod_less_divisor[OF assms, of "n + k - 1"]
    by linarith
  then show ?thesis using assms by simp
qed

lemma ReadFrom_loop_extend:
  assumes "ReadFrom_loop c r n True = Some ((res, None), c')"
    and "chain_ok (fs c) nc (prev c @ [cluster c])"
  shows "res = n + int (length r)
     \<and> (\<exists>ys. prev c' @ [cluster c'] = prev c @ [cluster c] @ ys
            \<and> length ys = (length r + ClusterSize (fs c) - 1) div ClusterSize (fs c)
            \<and> chain_ok (fs c') nc (prev c' @ [cluster c'])
            \<and> BootSector (fs c') = BootSector (fs c)
            \<and> (\<forall>x \<in> set (prev c @ [cluster c]). cluster_data (fs c') x = cluster_data (fs c) x)
            \<and> chain_data (fs c') ys
                 = r @ replicate (length ys * ClusterSize (fs c) - length r) 0)"
  using assms
proof (induction "length r" arbitrary: c r n rule: less_induct)
  case less
  let ?CS = "ClusterSize (fs c)"
  let ?xs = "prev c @ [cluster c]"
  note run = less.prems(1) and ok = less.prems(2)
  have CS: "0 < ?CS" using ok ClusterSize_pos by (auto simp: chain_ok_def)
  consider (empty) "r = []" | (short) "r \<noteq> []" "length r < ?CS" | (full) "?CS \<le> length r"
    by linarith
  then show ?case
  proof cases
    case empty
    have "ReadFrom_loop c r n True = Some ((n, None), c)"
      using ReadFull_empty[OF CS] by (subst ReadFrom_loop.simps) (simp add: empty)
    with run have "res = n" "c' = c" by simp_all
    then show ?thesis using ok empty CS by (simp add: chain_data_def)
  next
    case short
    note rf = ReadFull_short[OF short]
    from ReadFrom_loop_step[OF rf _ run] obtain u1 c1 u2 c2 where
      st: "(if True then Extend c else (Inr (), c)) = (Inr u1, c1)"
      and wc: "WriteCluster c1 (r @ replicate (?CS - length r) 0) = (Inr u2, c2)"
      and fin: "res = n + int (length r)" "c' = c2"
      by auto
    from step_effect[OF ok st wc] obtain t where
      t: "prev c2 @ [cluster c2] = ?xs @ [t]" "chain_ok (fs c2) nc (prev c2 @ [cluster c2])"
        "BootSector (fs c2) = BootSector (fs c)"
        "\<forall>x \<in> set ?xs. cluster_data (fs c2) x = cluster_data (fs c) x"
        "cluster_data (fs c2) t = r @ replicate (?CS - length r) 0"
      by auto
    have "(length r + ?CS - 1) div ?CS = 1"
    proof -
      have "0 < length r" using short(1) by simp
      then have e: "length r + ?CS - 1 = (length r - 1) + ?CS" by linarith
      have "((length r - 1) + ?CS) div ?CS = (length r - 1) div ?CS + 1"
        using CS by (intro div_add_self2) simp
      then have "(length r + ?CS - 1) div ?CS = (length r - 1) div ?CS + 1" unfolding e .
      moreover have "(length r - 1) div ?CS = 0" using short(2) by simp
      ultimately show ?thesis by simp
    qed
    then show ?thesis
      using fin t by (intro conjI exI[of _ "[t]"]) (simp_all add: chain_data_single)
  next
    case full
    note rf = ReadFull_full[OF CS full]
    from ReadFrom_loop_step[OF rf _ run] obtain u1 c1 u2 c2 where
      st: "(if True then Extend c else (Inr (), c)) = (Inr u1, c1)"
      and wc: "WriteCluster c1 (take ?CS r) = (Inr u2, c2)"
      and rec: "ReadFrom_loop c2 (drop ?CS r) (n + int ?CS) True = Some ((res, None), c')"
      by auto
    from step_effect[OF ok st wc] obtain t where
      t: "prev c2 @ [cluster c2] = ?xs @ [t]" "chain_ok (fs c2) nc (prev c2 @ [cluster c2])"
        "BootSector (fs c2) = BootSector (fs c)"
        "\<forall>x \<in> set ?xs. cluster_data (fs c2) x = cluster_data (fs c) x"
        "cluster_data (fs c2) t = take ?CS r"
      by auto
    have cs2: "ClusterSize (fs c2) = ?CS" using ClusterSize_cong[OF t(3)] .
    have shorter: "length (drop ?CS r) < length r" using CS full by simp
    from less.hyps[OF shorter rec t(2)] obtain ys where
      r1: "res = n + int ?CS + int (length (drop ?CS r))"
      and ys: "prev c' @ [cluster c'] = prev c2 @ [cluster c2] @ ys"
        "length ys = (length (drop ?CS r) + ?CS - 1) div ?CS"
        "chain_ok (fs c') nc (prev c' @ [cluster c'])"
        "BootSector (fs c') = BootSector (fs c2)"
        "\<forall>x \<in> set (prev c2 @ [cluster c2]). cluster_data (fs c') x = cluster_data (fs c2) x"
        "chain_data (fs c') ys = drop ?CS r @ replicate (length ys * ?CS - length (drop ?CS r)) 0"
      unfolding cs2 by auto
    have res: "res = n + int (length r)" using r1 full by simp
    have len: "length (t # ys) = (length r + ?CS - 1) div ?CS"
      using ys(2) ceil_div_step[OF CS full] by simp
    have app: "prev c' @ [cluster c'] = ?xs @ (t # ys)" using ys(1) t(1) by simp
    have old: "\<forall>x \<in> set ?xs. cluster_data (fs c') x = cluster_data (fs c) x"
    proof
      fix x assume x: "x \<in> set ?xs"
      then have "x \<in> set (prev c2 @ [cluster c2])" unfolding t(1) by auto
      then have "cluster_data (fs c') x = cluster_data (fs c2) x" using ys(5) by blast
      moreover have "cluster_data (fs c2) x = cluster_data (fs c) x" using t(4) x by blast
      ultimately show "cluster_data (fs c') x = cluster_data (fs c) x" by simp
    qed
    have "t \<in> set (prev c2 @ [cluster c2])" unfolding t(1) by simp
    then have "cluster_data (fs c') t = cluster_data (fs c2) t" using ys(5) by blast
    then have dt: "cluster_data (fs c') t = take ?CS r" using t(5) by simp
    have pad: "length (t # ys) * ?CS - length r = length ys * ?CS - length (drop ?CS r)"
      using full by simp
    have "chain_data (fs c') (t # ys) = take ?CS r @ chain_data (fs c') ys"
      using dt by (simp add: chain_data_def)
    also have "\<dots> = r @ replicate (length (t # ys) * ?CS - length r) 0"
      unfolding ys(6) pad by simp
    finally have data: "chain_data (fs c') (t # ys)
        = r @ replicate (length (t # ys) * ?CS - length r) 0" .
    show ?thesis
      using res app len ys(3) ys(4) t(3) old data
      by (intro conjI exI[of _ "t # ys"]) simp_all
  qed
qed

section \<open>\<open>ReadFrom\<close> on a chain of one cluster\<close>

lemma chain_ok_store:
  assumes "chain_ok f nc xs" "store (Device f') = store (Device f)"
    "fatSectors f' = fatSectors f" "BootSector f' = BootSector f"
  shows "chain_ok f' nc xs"
proof (rule chain_ok_entries[OF assms(1)])
  have "wf_volume f nc" using assms(1) by (simp add: chain_ok_def)
  then show "wf_volume f' nc"
    using wf_volume_cong[OF _ assms(4) assms(3)] assms(2) by (simp add: wf_volume_def wf_device_def)
  show "\<forall>x \<in> set xs. fat_entry f' x = fat_entry f x"
    using fat_entry_cong[OF assms(2) assms(3)] by simp
qed

lemma ReadFrom_effect:
  assumes ok: "chain_ok (fs c) nc [cluster c]" and start: "prev c = []"
    and zero: "cluster_data (fs c) (cluster c) = replicate (ClusterSize (fs c)) 0"
    and run: "ReadFrom c B = Some ((res, None), c')"
  shows "res = int (length B)"
    "length (prev c' @ [cluster c'])
       = max 1 ((length B + ClusterSize (fs c) - 1) div ClusterSize (fs c))"
    "hd (prev c' @ [cluster c']) = cluster c"
    "chain_ok (fs c') nc (prev c' @ [cluster c'])"
    "BootSector (fs c') = BootSector (fs c)"
    "chain_data (fs c') (prev c' @ [cluster c'])
       = B @ replicate (length (prev c' @ [cluster c']) * ClusterSize (fs c) - length B) 0"
proof -
  let ?CS = "ClusterSize (fs c)"
  obtain p c1 where s: "Seek c 0 SeekEnd = (Inr p, c1)"
    and l: "ReadFrom_loop c1 B 0 False = Some ((res, None), c')"
    using run by (cases "Seek c 0 SeekEnd") (auto simp: ReadFrom_def split: sum.splits)
  have ae: "at_end (fs c) (cluster c)" using ok by (simp add: chain_ok_def)
  have pos: "cluster c1 = cluster c" "prev c1 = []"
    using Seek_End_at_end[OF ae s] start by simp_all
  have f1: "store (Device (fs c1)) = store (Device (fs c))"
    "fatSectors (fs c1) = fatSectors (fs c)" "BootSector (fs c1) = BootSector (fs c)"
    using Seek_fields[OF s] by simp_all
  have ok1: "chain_ok (fs c1) nc (prev c1 @ [cluster c1])"
    using chain_ok_store[OF ok f1] pos by simp
  have cs1: "ClusterSize (fs c1) = ?CS" using ClusterSize_cong[OF f1(3)] .
  have zero1: "cluster_data (fs c1) (cluster c) = replicate ?CS 0"
    using cluster_data_cong[OF f1(1) f1(3)] zero by simp
  have CS: "0 < ?CS" using ok ClusterSize_pos by (auto simp: chain_ok_def)
  have CS1: "0 < ClusterSize (fs c1)" using CS cs1 by simp
  consider (empty) "B = []" | (short) "B \<noteq> []" "length B < ?CS" | (full) "?CS \<le> length B"
    by linarith
  then have "res = int (length B)
      \<and> length (prev c' @ [cluster c']) = max 1 ((length B + ?CS - 1) div ?CS)
      \<and> hd (prev c' @ [cluster c']) = cluster c
      \<and> chain_ok (fs c') nc (prev c' @ [cluster c'])
      \<and> BootSector (fs c') = BootSector (fs c)
      \<and> chain_data (fs c') (prev c' @ [cluster c'])
           = B @ replicate (length (prev c' @ [cluster c']) * ?CS - length B) 0"
  proof cases
    case empty
    have "ReadFrom_loop c1 B 0 False = Some ((0, None), c1)"
      using ReadFull_empty[OF CS1] by (subst ReadFrom_loop.simps) (simp add: empty)
    with l have r: "res = 0" "c' = c1" by simp_all
    have "(0 + ?CS - 1) div ?CS = 0" using CS by simp
    then show ?thesis
      using r empty pos ok1 f1(3) zero1 by (simp add: chain_data_single)
  next
    case short
    have sh: "length B < ClusterSize (fs c1)" using short(2) cs1 by simp
    note rf = ReadFull_short[OF short(1) sh]
    from ReadFrom_loop_step[OF rf _ l] obtain u2 c2 where
      wc: "WriteCluster c1 (B @ replicate (ClusterSize (fs c1) - length B) 0) = (Inr u2, c2)"
      and fin: "res = int (length B)" "c' = c2"
      by auto
    note W = WriteCluster_chain[OF ok1 wc]
    have one: "(length B + ?CS - 1) div ?CS = 1"
    proof -
      have "0 < length B" using short(1) by simp
      then have e: "length B + ?CS - 1 = (length B - 1) + ?CS" by linarith
      have "((length B - 1) + ?CS) div ?CS = (length B - 1) div ?CS + 1"
        using CS by (intro div_add_self2) simp
      then have "(length B + ?CS - 1) div ?CS = (length B - 1) div ?CS + 1" unfolding e .
      moreover have "(length B - 1) div ?CS = 0" using short(2) by simp
      ultimately show ?thesis by simp
    qed
    have p2: "prev c2 = []" "cluster c2 = cluster c" using W(1,2) pos by simp_all
    have "chain_ok (fs c2) nc [cluster c]" using W(5) pos by simp
    moreover have "cluster_data (fs c2) (cluster c) = B @ replicate (?CS - length B) 0"
      using W(6) pos cs1 by simp
    moreover have "BootSector (fs c2) = BootSector (fs c)" using W(3) f1(3) by simp
    ultimately show ?thesis
      using fin p2 one by (simp add: chain_data_single)
  next
    case full
    have fu: "ClusterSize (fs c1) \<le> length B" using full cs1 by simp
    note rf = ReadFull_full[OF CS1 fu]
    from ReadFrom_loop_step[OF rf _ l] obtain u2 c2 where
      wc: "WriteCluster c1 (take (ClusterSize (fs c1)) B) = (Inr u2, c2)"
      and rec: "ReadFrom_loop c2 (drop (ClusterSize (fs c1)) B) (0 + int (ClusterSize (fs c1))) True
                  = Some ((res, None), c')"
      by auto
    note W = WriteCluster_chain[OF ok1 wc]
    have p2: "prev c2 = []" "cluster c2 = cluster c" using W(1,2) pos by simp_all
    have ok2: "chain_ok (fs c2) nc (prev c2 @ [cluster c2])" using W(5) pos p2 by simp
    have bs2: "BootSector (fs c2) = BootSector (fs c)" using W(3) f1(3) by simp
    have cs2: "ClusterSize (fs c2) = ?CS" using ClusterSize_cong[OF bs2] .
    have d2: "cluster_data (fs c2) (cluster c) = take ?CS B" using W(6) pos cs1 by simp
    from ReadFrom_loop_extend[OF rec ok2] obtain ys where
      r1: "res = 0 + int (ClusterSize (fs c1)) + int (length (drop (ClusterSize (fs c1)) B))"
      and ys: "prev c' @ [cluster c'] = prev c2 @ [cluster c2] @ ys"
        "length ys = (length (drop (ClusterSize (fs c1)) B) + ?CS - 1) div ?CS"
        "chain_ok (fs c') nc (prev c' @ [cluster c'])"
        "BootSector (fs c') = BootSector (fs c2)"
        "\<forall>x \<in> set (prev c2 @ [cluster c2]). cluster_data (fs c') x = cluster_data (fs c2) x"
        "chain_data (fs c') ys
           = drop (ClusterSize (fs c1)) B
             @ replicate (length ys * ?CS - length (drop (ClusterSize (fs c1)) B)) 0"
      unfolding cs2 by auto
    have res: "res = int (length B)" using r1 full cs1 by simp
    have app: "prev c' @ [cluster c'] = cluster c # ys" using ys(1) p2 by simp
    have len: "length (cluster c # ys) = (length B + ?CS - 1) div ?CS"
      using ys(2) ceil_div_step[OF CS full] cs1 by simp
    then have "1 \<le> (length B + ?CS - 1) div ?CS" by simp
    then have mx: "max 1 ((length B + ?CS - 1) div ?CS) = (length B + ?CS - 1) div ?CS" by simp
    have "cluster_data (fs c') (cluster c) = cluster_data (fs c2) (cluster c)"
      using ys(5) p2 by simp
    then have dt: "cluster_data (fs c') (cluster c) = take ?CS B" using d2 by simp
    have pad: "length (cluster c # ys) * ?CS - length B = length ys * ?CS - length (drop ?CS B)"
      using full by simp
    have "chain_data (fs c') (cluster c # ys) = take ?CS B @ chain_data (fs c') ys"
      using dt by (simp add: chain_data_def)
    also have "\<dots> = B @ replicate (length (cluster c # ys) * ?CS - length B) 0"
      unfolding ys(6) pad cs1 by simp
    finally have data: "chain_data (fs c') (cluster c # ys)
        = B @ replicate (length (cluster c # ys) * ?CS - length B) 0" .
    have bs: "BootSector (fs c') = BootSector (fs c)" using ys(4) bs2 by simp
    show ?thesis
      unfolding app mx using res len ys(3)[unfolded app] bs data by simp
  qed
  then show "res = int (length B)"
    "length (prev c' @ [cluster c']) = max 1 ((length B + ?CS - 1) div ?CS)"
    "hd (prev c' @ [cluster c']) = cluster c"
    "chain_ok (fs c') nc (prev c' @ [cluster c'])"
    "BootSector (fs c') = BootSector (fs c)"
    "chain_data (fs c') (prev c' @ [cluster c'])
       = B @ replicate (length (prev c' @ [cluster c']) * ?CS - length B) 0"
    by blast+
qed

section \<open>\<open>WriteTo\<close> on a chain that ends in a marker\<close>

lemma linked_nth:
  "linked f xs \<Longrightarrow> Suc k < length xs \<Longrightarrow> fat_entry f (xs ! k) = Inr (xs ! Suc k)"
proof (induction f xs arbitrary: k rule: linked.induct)
  case (3 f x y r)
  then show ?case by (cases k) auto
qed simp_all

lemma ReadCluster_loop_no_faults:
  assumes "faults (Device f) = []"
  shows "\<exists>data. ReadCluster_loop f off res i = (Inr data, f)"
  using assms
proof (induction "unat (SecPerClus (BootSector f)) - i" arbitrary: res i)
  case 0
  then have "\<not> i < unat (SecPerClus (BootSector f))" by simp
  then show ?case by (subst ReadCluster_loop.simps) simp
next
  case (Suc m)
  then have i: "i < unat (SecPerClus (BootSector f))" by simp
  have d: "f\<lparr>Device := Device f\<rparr> = f" by simp
  have "ReadCluster_loop f off res i
      = ReadCluster_loop f off (res @ store (Device f) (off + of_nat i)) (i + 1)"
    using i ReadSector_no_faults[OF Suc.prems] by (subst ReadCluster_loop.simps) (simp add: d)
  moreover have "m = unat (SecPerClus (BootSector f)) - (i + 1)" using Suc.hyps(2) by simp
  ultimately show ?case using Suc.hyps(1)[OF _ Suc.prems] by simp
qed

lemma ReadCluster_no_faults:
  assumes "faults (Device (fs c)) = []"
  shows "ReadCluster c = (Inr (cluster_data (fs c) (cluster c)), c)"
proof -
  from ReadCluster_loop_no_faults[OF assms] obtain data where
    l: "ReadCluster_loop (fs c) (clusterSector c) [] 0 = (Inr data, fs c)" by blast
  then have r: "ReadCluster c = (Inr data, c)" by (simp add: ReadCluster_def)
  from ReadCluster_Inr[OF r] show ?thesis using r by simp
qed

lemma WriteTo_loop_chain:
  assumes "chain_ok (fs c) nc xs" "k < length xs" "prev c = take k xs" "cluster c = xs ! k"
  shows "\<exists>m e c2 out. WriteTo_loop c w n (int k) = Some ((m, e), c2, out)
           \<and> (e = None \<longrightarrow> m = n + int (length (chain_data (fs c) (drop k xs)))
                           \<and> out = w @ chain_data (fs c) (drop k xs))
           \<and> (faults (Device (fs c)) = [] \<longrightarrow> e = None)"
  using assms
proof (induction "length xs - k" arbitrary: c w n k)
  case 0
  then show ?case by simp
next
  case (Suc d)
  note ok = Suc.prems(1) and k = Suc.prems(2) and pv = Suc.prems(3) and cl = Suc.prems(4)
  note unf = WriteTo_loop.simps[of c w n "int k"]
  have wv: "wf_volume (fs c) nc" and lk: "linked (fs c) xs" and ae: "at_end (fs c) (last xs)"
    using ok by (simp_all add: chain_ok_def)
  have ne: "fatSectors (fs c) \<noteq> []" using wv by (simp add: wf_volume_def)
  obtain rr c1 where rc: "ReadCluster c = (rr, c1)" by (cases "ReadCluster c")
  show ?case
  proof (cases rr)
    case (Inl e)
    have "WriteTo_loop c w n (int k) = Some ((n, Some e), c1, w)"
      unfolding unf rc Inl by simp
    moreover have "faults (Device (fs c)) \<noteq> []"
      using ReadCluster_no_faults[of c] rc Inl by auto
    ultimately show ?thesis by simp
  next
    case (Inr data)
    note R = ReadCluster_Inr[OF rc[unfolded Inr]]
    have data: "data = cluster_data (fs c) (xs ! k)" using R cl by simp
    have p1: "cluster c1 = xs ! k" "prev c1 = take k xs" using R cl pv by simp_all
    have f1: "store (Device (fs c1)) = store (Device (fs c))"
      "fatSectors (fs c1) = fatSectors (fs c)" "BootSector (fs c1) = BootSector (fs c)"
      using R by simp_all
    have nf1: "faults (Device (fs c)) = [] \<Longrightarrow> c1 = c"
      using ReadCluster_no_faults[of c] rc by simp
    have sk: "Seek c1 1 SeekCurrent = Seek_forward c1 1" by (simp add: Seek_Current)
    obtain fr f where rf: "ReadFAT (fs c1) (cluster c1) = (fr, f)"
      by (cases "ReadFAT (fs c1) (cluster c1)")
    have f2: "store (Device f) = store (Device (fs c))"
      "fatSectors f = fatSectors (fs c)" "BootSector f = BootSector (fs c)"
      using ReadFAT_fields[OF rf] f1 by simp_all
    have nf2: "faults (Device (fs c)) = [] \<Longrightarrow> fr = fat_entry (fs c) (xs ! k) \<and> f = fs c"
      using ReadFAT_no_faults[of "fs c" "xs ! k"] ne nf1 rf p1 by auto
    show ?thesis
    proof (cases fr)
      case (Inl e)
      have "Seek c1 1 SeekCurrent = (Inl e, c1\<lparr>fs := f\<rparr>)"
        unfolding sk Seek_forward_1 rf Inl by simp
      then have "WriteTo_loop c w n (int k)
          = Some ((n + int (length data), Some e), c1\<lparr>fs := f\<rparr>, w @ data)"
        unfolding unf rc \<open>rr = Inr data\<close> by simp
      moreover have "faults (Device (fs c)) \<noteq> []"
      proof
        assume "faults (Device (fs c)) = []"
        from nf2[OF this] Inl have "fat_entry (fs c) (xs ! k) = Inl e" by simp
        moreover obtain fat0 rest where "fatSectors (fs c) = fat0 # rest"
          using ne by (cases "fatSectors (fs c)") auto
        ultimately show False using fat_entry_raw by simp
      qed
      ultimately show ?thesis by simp
    next
      case (Inr nxt)
      have "fat_entry (fs c1) (xs ! k) = Inr nxt" using ReadFAT_Inr rf Inr p1 by simp
      then have en: "fat_entry (fs c) (xs ! k) = Inr nxt"
        using fat_entry_cong[OF f1(1) f1(2)] by simp
      show ?thesis
      proof (cases "Suc k = length xs")
        case True
        then have "k = length xs - 1" "xs \<noteq> []" by auto
        then have "last xs = xs ! k" using last_conv_nth[of xs] by simp
        then have "EOF \<le> nxt" using ae en by (simp add: at_end_def)
        then have "Seek c1 1 SeekCurrent = (Inr (int k), c1\<lparr>fs := f\<rparr>)"
          unfolding sk Seek_forward_1 rf Inr using p1 k by simp
        then have "WriteTo_loop c w n (int k)
            = Some ((n + int (length data), None), c1\<lparr>fs := f\<rparr>, w @ data)"
          unfolding unf rc \<open>rr = Inr data\<close> by simp
        moreover have "drop k xs = [xs ! k]"
          using True k by (metis Cons_nth_drop_Suc drop_all order_refl)
        ultimately show ?thesis using data by (simp add: chain_data_single)
      next
        case False
        then have sk': "Suc k < length xs" using k by simp
        have nx: "nxt = xs ! Suc k" using linked_nth[OF lk sk'] en by simp
        have "xs ! Suc k \<in> set xs" using sk' by simp
        then have "nxt < nc" using ok nx by (auto simp: chain_ok_def)
        then have "nxt < EOF" using valid_in_range(2)[OF wv] by simp
        then have notend: "\<not> EOF \<le> nxt" by simp
        let ?c2 = "c1\<lparr>fs := f, prev := prev c1 @ [cluster c1], cluster := nxt\<rparr>"
        have "Seek c1 1 SeekCurrent = (Inr (int k + 1), ?c2)"
          unfolding sk Seek_forward_1 rf Inr using p1 k notend by simp
        then have step: "WriteTo_loop c w n (int k)
            = WriteTo_loop ?c2 (w @ data) (n + int (length data)) (int (Suc k))"
          unfolding unf rc \<open>rr = Inr data\<close> by (simp add: add.commute)
        have ok2: "chain_ok (fs ?c2) nc xs" using chain_ok_store[OF ok f2] by simp
        have pv2: "prev ?c2 = take (Suc k) xs"
          using p1 k by (simp add: take_Suc_conv_app_nth)
        have cl2: "cluster ?c2 = xs ! Suc k" using nx by simp
        have dd: "d = length xs - Suc k" using Suc.hyps(2) by simp
        from Suc.hyps(1)[OF dd ok2 sk' pv2 cl2, of "w @ data" "n + int (length data)"]
        obtain m e c3 out where
          r: "WriteTo_loop ?c2 (w @ data) (n + int (length data)) (int (Suc k))
                = Some ((m, e), c3, out)"
          and good: "e = None \<longrightarrow>
                m = n + int (length data) + int (length (chain_data f (drop (Suc k) xs)))
                \<and> out = (w @ data) @ chain_data f (drop (Suc k) xs)"
          and nf: "faults (Device f) = [] \<longrightarrow> e = None"
          by auto
        have cd: "chain_data f ys = chain_data (fs c) ys" for ys
          by (rule chain_data_cong) (simp add: cluster_data_cong[OF f2(1) f2(3)])
        have dr: "drop k xs = xs ! k # drop (Suc k) xs"
          using k by (simp add: Cons_nth_drop_Suc)
        have cdk: "chain_data (fs c) (drop k xs) = data @ chain_data (fs c) (drop (Suc k) xs)"
          unfolding dr using data by (simp add: chain_data_def)
        have "faults (Device (fs c)) = [] \<longrightarrow> e = None" using nf nf2 by auto
        moreover have "e = None \<longrightarrow> m = n + int (length (chain_data (fs c) (drop k xs)))
                           \<and> out = w @ chain_data (fs c) (drop k xs)"
          using good unfolding cd cdk by simp
        ultimately show ?thesis unfolding step r by simp
      qed
    qed
  qed
qed

lemma WriteCluster_loop_no_faults:
  assumes "faults (Device f) = []"
  shows "\<exists>f'. WriteCluster_loop f off data chunk i = (Inr (), f') \<and> faults (Device f') = []"
  using assms
proof (induction "unat (SecPerClus (BootSector f)) - i" arbitrary: f chunk i)
  case 0
  then have "\<not> i < unat (SecPerClus (BootSector f))" by simp
  then have "WriteCluster_loop f off data chunk i = (Inr (), f)"
    by (subst WriteCluster_loop.simps) simp
  then show ?case using "0.prems" by simp
next
  case (Suc m)
  then have i: "i < unat (SecPerClus (BootSector f))" by simp
  let ?chunk = "copy_bytes chunk (drop (i * SectorSize) data)"
  let ?f1 = "f\<lparr>Device := (Device f)\<lparr>store := (store (Device f))(off + of_nat i := ?chunk)\<rparr>\<rparr>"
  have "WriteCluster_loop f off data chunk i = WriteCluster_loop ?f1 off data ?chunk (i + 1)"
    using i WriteSector_no_faults[OF Suc.prems]
    by (subst WriteCluster_loop.simps) (simp add: Let_def)
  moreover have "m = unat (SecPerClus (BootSector ?f1)) - (i + 1)" using Suc.hyps(2) by simp
  moreover have "faults (Device ?f1) = []" using Suc.prems by simp
  ultimately show ?case using Suc.hyps(1)[of ?f1 "i + 1" ?chunk] by simp
qed

lemma WriteCluster_no_faults:
  assumes "faults (Device (fs c)) = []" "length data = ClusterSize (fs c)"
  shows "\<exists>c'. WriteCluster c data = (Inr (), c') \<and> faults (Device (fs c')) = []"
proof -
  from WriteCluster_loop_no_faults[OF assms(1)] obtain f' where
    "WriteCluster_loop (fs c) (clusterSector c) data (replicate SectorSize 0) 0 = (Inr (), f')"
    "faults (Device f') = []" by blast
  then show ?thesis using assms(2) by (simp add: WriteCluster_def)
qed

lemma wf_volume_end_fs: "wf_volume (end_fs m) 1986"
proof -
  have "(1986 :: uint32) \<le> EOF" by (simp add: EOF_def word_le_nat_alt)
  then show ?thesis
    using end_fs_wf(1,2)[of m] NumClusters_example[OF end_fs_fields(1), of m]
    by (simp add: wf_volume_def end_fs_fields example_bs_fields)
qed

lemma cluster_data_end_fs: "cluster_data (end_fs m) 2 = replicate 512 0"
proof -
  have "data_sector (end_fs m) 2 0 = 64"
    by (simp add: data_sector_def clusterSector_def end_fs_fields example_bs_fields)
  then show ?thesis
    by (simp add: cluster_data_def end_fs_fields example_bs_fields end_fs_store)
qed

section \<open>\<open>ReadFrom\<close> on a device that does not fail\<close>

lemma Alloc_loop_succeeds:
  assumes nc: "NumClusters f = Inr nc"
    and sz: "unat (FatSz32 (BootSector f)) * 128 \<le> 2 ^ 32"
    and fs: "fatSectors f = fat0 # rest"
    and nf: "faults (Device f) = []"
    and ex: "free_slot f c0" "i * 128 \<le> unat c0"
  shows "\<exists>c f'. Alloc_loop f i = (Inr c, f') \<and> faults (Device f') = []"
  using assms
proof (induction "unat (FatSz32 (BootSector f)) - i" arbitrary: f i)
  case 0
  then have "unat (FatSz32 (BootSector f)) * 128 \<le> i * 128" by simp
  moreover have "unat c0 < unat (FatSz32 (BootSector f)) * 128"
    using "0.prems"(5) by (simp add: free_slot_def)
  ultimately show ?case using "0.prems"(6) by simp
next
  case (Suc n)
  then have i: "i < unat (FatSz32 (BootSector f))" by simp
  note step = Alloc_loop_step[OF Suc.prems(1,2,3) i]
  note r = ReadSector_no_faults[OF Suc.prems(4), of "of_nat i + fat0"]
  have f1: "f\<lparr>Device := Device f\<rparr> = f" by simp
  let ?P = "\<lambda>j'. free_slot f (of_nat j' + of_nat i * 128)"
  show ?case
  proof (cases "find ?P [0..<128]")
    case None
    have lo: "(i + 1) * 128 \<le> unat c0"
    proof (rule ccontr)
      assume "\<not> (i + 1) * 128 \<le> unat c0"
      then have hi: "unat c0 < (i + 1) * 128" by simp
      from scan_cover[OF Suc.prems(6) hi] find_upt_None[OF None, of "unat c0 - i * 128"]
        Suc.prems(5)
      show False by simp
    qed
    have n: "n = unat (FatSz32 (BootSector f)) - (i + 1)" using Suc.hyps(2) by simp
    from Suc.hyps(1)[OF n Suc.prems(1,2,3,4,5) lo]
    show ?thesis using step r None by (simp add: f1)
  next
    case (Some j)
    obtain f' where "WriteFAT f (of_nat j + of_nat i * 128) EOF = (Inr (), f')"
      "faults (Device f') = []"
      using WriteFAT_no_faults[OF Suc.prems(4)] by blast
    then show ?thesis using step r Some by (simp add: f1 Alloc_mark_def)
  qed
qed

lemma Seek_End_no_faults:
  assumes "at_end (fs c) (cluster c)" "faults (Device (fs c)) = []" "fatSectors (fs c) \<noteq> []"
  shows "Seek c 0 SeekEnd = (Inr (int (length (prev c))), c)"
proof -
  obtain e where e: "fat_entry (fs c) (cluster c) = Inr e" "EOF \<le> e"
    using assms(1) by (auto simp: at_end_def)
  have r: "ReadFAT (fs c) (cluster c) = (Inr e, fs c)"
    using ReadFAT_no_faults[OF assms(2,3)] e(1) by simp
  have 1: "Seek c 0x100000000 SeekCurrent = (Inr (int (length (prev c))), c)"
    using e(2) by (simp add: Seek_Current Seek_forward_numeral r)
  have 2: "Seek c 0 SeekCurrent = (Inr (int (length (prev c))), c)"
    by (simp add: Seek_Current)
  show ?thesis by (simp add: Seek_End 1 2)
qed

lemma Extend_no_faults:
  assumes ok: "chain_ok (fs c) nc (prev c @ [cluster c])"
    and nf: "faults (Device (fs c)) = []"
    and fr: "free_slot (fs c) k"
  shows "\<exists>c'. Extend c = (Inr (), c') \<and> faults (Device (fs c')) = []"
proof -
  have wv: "wf_volume (fs c) nc" and ae: "at_end (fs c) (cluster c)"
    using ok by (simp_all add: chain_ok_def)
  have ne: "fatSectors (fs c) \<noteq> []" and nc: "NumClusters (fs c) = Inr nc"
    and sz: "unat (FatSz32 (BootSector (fs c))) * 128 \<le> 2 ^ 32"
    using wv by (simp_all add: wf_volume_def)
  from ne obtain fat0 rest where fs: "fatSectors (fs c) = fat0 # rest"
    by (cases "fatSectors (fs c)") auto
  have s: "Seek c 0 SeekEnd = (Inr (int (length (prev c))), c)"
    using Seek_End_no_faults[OF ae nf ne] .
  have "0 * 128 \<le> unat k" by simp
  from Alloc_loop_succeeds[OF nc sz fs nf fr this] obtain new f2 where
    a: "Alloc (fs c) = (Inr new, f2)" and nf2: "faults (Device f2) = []"
    by (auto simp: Alloc_def)
  from WriteFAT_no_faults[OF nf2] obtain f3 where
    w: "WriteFAT f2 (cluster c) new = (Inr (), f3)" and nf3: "faults (Device f3) = []"
    by blast
  show ?thesis using nf3 by (simp add: Extend_def s a w)
qed

lemma free_slot_entries:
  "BootSector f' = BootSector f \<Longrightarrow> fat_entry f' k = fat_entry f k \<Longrightarrow>
   free_slot f' k = free_slot f k"
  by (simp add: free_slot_def NumClusters_def)

lemma Extend_free:
  assumes ok: "chain_ok (fs c) nc (prev c @ [cluster c])"
    and e: "Extend c = (Inr u, c')"
    and fr: "free_slot (fs c) k" and k: "k \<noteq> cluster c'"
  shows "free_slot (fs c') k"
proof -
  have wv: "wf_volume (fs c) nc" and lk: "linked (fs c) (prev c @ [cluster c])"
    and ae: "at_end (fs c) (last (prev c @ [cluster c]))"
    and two: "\<forall>x \<in> set (prev c @ [cluster c]). 2 \<le> x"
    using ok by (simp_all add: chain_ok_def)
  have "NumClusters (fs c) = Inr nc" using wv by (simp add: wf_volume_def)
  then have knc: "k < nc" and k0: "fat_entry (fs c) k = Inr 0"
    using fr by (simp_all add: free_slot_def)
  have "fat_entry (fs c) (cluster c) \<noteq> Inr 0"
    using chain_entry_nonzero[OF lk ae two, of "cluster c"] by simp
  then have "k \<noteq> cluster c" using k0 by auto
  from Extend_effect(6)[OF ok e knc this k] Extend_effect(4)[OF ok e]
  show ?thesis using fr free_slot_entries by blast
qed

lemma WriteCluster_free:
  assumes ok: "chain_ok (fs c) nc (prev c @ [cluster c])"
    and w: "WriteCluster c data = (Inr u, c')"
    and fr: "free_slot (fs c) k"
  shows "free_slot (fs c') k"
proof -
  have wv: "wf_volume (fs c) nc" using ok by (simp add: chain_ok_def)
  have cur: "2 \<le> cluster c" "cluster c < nc" using chain_ok_range[OF ok, of "cluster c"] by simp_all
  have "unat k < unat (FatSz32 (BootSector (fs c))) * 128" using fr by (simp add: free_slot_def)
  then have "k div 128 < FatSz32 (BootSector (fs c))" by (rule in_fat_range)
  from WriteCluster_effect(8)[OF wv cur w this] WriteCluster_effect(3)[OF wv cur w]
  show ?thesis using fr free_slot_entries by blast
qed

lemma ReadFrom_loop_total:
  assumes "chain_ok (fs c) nc (prev c @ [cluster c])" "faults (Device (fs c)) = []"
    and "\<forall>k \<in> set ks. free_slot (fs c) k" "distinct ks"
    and "(length r + ClusterSize (fs c) - 1) div ClusterSize (fs c) \<le> length ks"
  shows "\<exists>res c'. ReadFrom_loop c r n b = Some ((res, None), c')
           \<and> faults (Device (fs c')) = []"
  using assms
proof (induction "length r" arbitrary: c r n b ks rule: less_induct)
  case less
  let ?CS = "ClusterSize (fs c)"
  note ok = less.prems(1) and nf = less.prems(2) and free = less.prems(3)
    and dist = less.prems(4) and enough = less.prems(5)
  have CS: "0 < ?CS" using ok ClusterSize_pos by (auto simp: chain_ok_def)
  show ?case
  proof (cases "r = []")
    case True
    have "ReadFrom_loop c r n b = Some ((n, None), c)"
      using ReadFull_empty[OF CS] by (subst ReadFrom_loop.simps) (simp add: True)
    then show ?thesis using nf by simp
  next
    case False
    define m st buf r' where "m = fst (ReadFull r (replicate ?CS 0))"
      and "st = fst (snd (ReadFull r (replicate ?CS 0)))"
      and "buf = fst (snd (snd (ReadFull r (replicate ?CS 0))))"
      and "r' = snd (snd (snd (ReadFull r (replicate ?CS 0))))"
    have rf: "ReadFull r (replicate ?CS 0) = (m, st, buf, r')"
      by (simp add: m_def st_def buf_def r'_def)
    have shape: "st \<noteq> ReadEOF" "length buf = ?CS"
      "st \<noteq> ReadUnexpectedEOF \<longrightarrow> ?CS \<le> length r \<and> r' = drop ?CS r"
      using False CS rf by (auto simp: ReadFull_def split: if_splits)
    have "1 \<le> (length r + ?CS - 1) div ?CS"
    proof -
      have "?CS \<le> length r + ?CS - 1" using False by (cases r) auto
      then show ?thesis using CS by (simp add: Suc_le_eq div_greater_zero_iff)
    qed
    then have ksne: "ks \<noteq> []" using enough by auto
    obtain c1 ks1 where
      st1: "(if b then Extend c else (Inr (), c)) = (Inr (), c1)"
      and ok1: "chain_ok (fs c1) nc (prev c1 @ [cluster c1])"
      and nf1: "faults (Device (fs c1)) = []"
      and free1: "\<forall>k \<in> set ks1. free_slot (fs c1) k" "distinct ks1"
        "length ks \<le> Suc (length ks1)"
      and bs1: "BootSector (fs c1) = BootSector (fs c)"
    proof (cases b)
      case True
      have "free_slot (fs c) (hd ks)" using free ksne by simp
      from Extend_no_faults[OF ok nf this] obtain c1 where
        e: "Extend c = (Inr (), c1)" and n1: "faults (Device (fs c1)) = []" by blast
      note E = Extend_effect[OF ok e]
      have "chain_ok (fs c1) nc (prev c1 @ [cluster c1])" using E(1,3) by simp
      moreover have "\<forall>k \<in> set (remove1 (cluster c1) ks). free_slot (fs c1) k"
        using Extend_free[OF ok e] free dist by auto
      moreover have "length ks \<le> Suc (length (remove1 (cluster c1) ks))"
        by (auto simp: length_remove1)
      ultimately show ?thesis
        using that[of c1 "remove1 (cluster c1) ks"] True e n1 dist E(4) by simp
    next
      case False
      then show ?thesis using that[of c ks] ok nf free dist by simp
    qed
    have cs1: "ClusterSize (fs c1) = ?CS" using ClusterSize_cong[OF bs1] .
    from WriteCluster_no_faults[OF nf1, of buf] shape(2) cs1 obtain c2 where
      w: "WriteCluster c1 buf = (Inr (), c2)" and nf2: "faults (Device (fs c2)) = []"
      by auto
    note W = WriteCluster_chain[OF ok1 w]
    have ok2: "chain_ok (fs c2) nc (prev c2 @ [cluster c2])" using W(1,2,5) by simp
    have free2: "\<forall>k \<in> set ks1. free_slot (fs c2) k"
      using WriteCluster_free[OF ok1 w] free1(1) by blast
    have cs2: "ClusterSize (fs c2) = ?CS" using ClusterSize_cong[OF W(3)] cs1 by simp
    have unf: "ReadFrom_loop c r n b =
        (if st = ReadUnexpectedEOF then Some ((n + int m, None), c2)
         else ReadFrom_loop c2 r' (n + int m) True)"
      using shape(1) by (subst ReadFrom_loop.simps) (simp add: rf st1 w)
    show ?thesis
    proof (cases "st = ReadUnexpectedEOF")
      case True
      then show ?thesis using unf nf2 by simp
    next
      case False
      then have full: "?CS \<le> length r" and r': "r' = drop ?CS r" using shape(3) by simp_all
      have shorter: "length r' < length r" using CS full r' by simp
      have "(length r + ?CS - 1) div ?CS = Suc ((length r - ?CS + ?CS - 1) div ?CS)"
        using ceil_div_step[OF CS full] .
      then have en: "(length r' + ClusterSize (fs c2) - 1) div ClusterSize (fs c2) \<le> length ks1"
        using enough free1(3) r' cs2 by simp
      from less.hyps[OF shorter ok2 nf2 free2 free1(2) en, of "n + int m" True]
      show ?thesis using unf False by simp
    qed
  qed
qed

lemma ReadFrom_total:
  assumes ok: "chain_ok (fs c) nc (prev c @ [cluster c])" and nf: "faults (Device (fs c)) = []"
    and free: "\<forall>k \<in> set ks. free_slot (fs c) k" "distinct ks"
    and enough: "(length B + ClusterSize (fs c) - 1) div ClusterSize (fs c) \<le> length ks"
  shows "\<exists>res c'. ReadFrom c B = Some ((res, None), c') \<and> faults (Device (fs c')) = []"
proof -
  have ae: "at_end (fs c) (cluster c)" and wv: "wf_volume (fs c) nc"
    using ok by (simp_all add: chain_ok_def)
  have ne: "fatSectors (fs c) \<noteq> []" using wv by (simp add: wf_volume_def)
  have s: "Seek c 0 SeekEnd = (Inr (int (length (prev c))), c)"
    using Seek_End_no_faults[OF ae nf ne] .
  from ReadFrom_loop_total[OF ok nf free enough, of 0 False]
  show ?thesis by (simp add: ReadFrom_def s)
qed

lemma end_fs_free: "free_slot (end_fs m) 3" "free_slot (end_fs m) 4" "free_slot (end_fs m) 5"
proof -
  have e: "fat_entry (end_fs m) 3 = Inr 0" "fat_entry (end_fs m) 4 = Inr 0"
    "fat_entry (end_fs m) 5 = Inr 0"
    by (simp_all add: fat_entry_value[OF end_fs_fields(2)] end_fs_store Uint32_fat_patch_other
        Uint32_zero)
  have n: "NumClusters (end_fs m) = Inr 1986" using NumClusters_example[OF end_fs_fields(1)] .
  show "free_slot (end_fs m) 3" "free_slot (end_fs m) 4" "free_slot (end_fs m) 5"
    using e n by (simp_all add: free_slot_def end_fs_fields example_bs_fields word_less_nat_alt
        word_le_nat_alt)
qed

lemma length_example_input: "length example_input = 1500"
proof -
  have "length example_input = 1500 - 0"
    unfolding example_input_def by (simp only: length_map length_upt)
  then show ?thesis by simp
qed

lemma ReadFrom_example:
  "\<exists>res c'. ReadFrom (NewChain (end_fs EOF) 2) example_input = Some ((res, None), c')
      \<and> faults (Device (fs c')) = []"
proof (rule ReadFrom_total[where nc = 1986 and ks = "[3, 4, 5]"])
  let ?c = "NewChain (end_fs EOF) 2"
  show "chain_ok (fs ?c) 1986 (prev ?c @ [cluster ?c])"
    by (simp add: chain_ok_def NewChain_def wf_volume_end_fs at_end_def end_fs_entry_2 EOF_masked
        word_less_nat_alt)
  show "faults (Device (fs ?c)) = []" by (simp add: NewChain_def end_fs_fields)
  show "\<forall>k \<in> set [3, 4, 5]. free_slot (fs ?c) k" by (simp add: NewChain_def end_fs_free)
  show "distinct [3, 4, 5 :: uint32]" by simp
  have "ClusterSize (fs ?c) = 512"
    by (simp add: NewChain_def ClusterSize_def end_fs_fields example_bs_fields SectorSize_def)
  then show "(length example_input + ClusterSize (fs ?c) - 1) div ClusterSize (fs ?c)
      \<le> length [3, 4, 5 :: uint32]"
    by (simp add: length_example_input)
qed

text \<open>
  Claim C7. On a well-formed volume (\<open>wf_volume\<close>: sectors of 512 bytes, the FAT copies
  where \<open>NewFS\<close> puts them, a non-zero \<open>SecPerClus\<close>, a cluster count of at most
  \<open>0x0FFFFFF8\<close> that the FAT covers), take a fresh chain (\<open>prev\<close> empty) on a valid cluster
  whose entry is an end-of-chain marker and whose data is all zeroes. If \<open>ReadFrom\<close> of a
  reader over the bytes \<open>B\<close> returns without error, then it returns \<open>length B\<close>; the chain
  is then \<open>max 1 \<lceil>length B / ClusterSize\<rceil>\<close> clusters long, linked from the first cluster
  to an end-of-chain marker at the cursor; and \<open>Seek 0 SeekStart\<close> followed by \<open>WriteTo\<close>
  returns, and when it returns without error (as it does on a device that does not fail)
  it has written that many whole clusters after what the writer held: the bytes \<open>B\<close>
  followed by zeroes up to the cluster boundary.
\<close>

theorem ReadFrom_WriteTo_roundtrip:
  assumes "wf_volume (fs c) nc"
    and "prev c = []" and "2 \<le> cluster c" and "cluster c < nc"
    and "at_end (fs c) (cluster c)"
    and "cluster_data (fs c) (cluster c) = replicate (ClusterSize (fs c)) 0"
    and "ReadFrom c B = Some ((r, None), c')"
  shows "r = int (length B)
     \<and> length (prev c' @ [cluster c'])
         = max 1 ((length B + ClusterSize (fs c) - 1) div ClusterSize (fs c))
     \<and> hd (prev c' @ [cluster c']) = cluster c
     \<and> linked (fs c') (prev c' @ [cluster c']) \<and> at_end (fs c') (cluster c')
     \<and> (\<exists>m e c2 out.
           WriteTo (snd (Seek c' 0 SeekStart)) w = Some ((m, e), c2, out)
           \<and> (e = None \<longrightarrow>
                m = int (length (prev c' @ [cluster c']) * ClusterSize (fs c))
                \<and> out = w @ B @ replicate
                     (length (prev c' @ [cluster c']) * ClusterSize (fs c) - length B) 0)
           \<and> (faults (Device (fs c')) = [] \<longrightarrow> e = None))"
proof -
  let ?CS = "ClusterSize (fs c)"
  let ?zs = "prev c' @ [cluster c']"
  have ok: "chain_ok (fs c) nc [cluster c]" using assms(1,3,4,5) by (simp add: chain_ok_def)
  note R = ReadFrom_effect[OF ok assms(2) assms(6) assms(7)]
  have lk: "linked (fs c') ?zs" and ae: "at_end (fs c') (cluster c')"
    using R(4) by (simp_all add: chain_ok_def)
  let ?c1 = "c'\<lparr>cluster := FirstCluster c', prev := []\<rparr>"
  have s1: "snd (Seek c' 0 SeekStart) = ?c1" by (simp add: Seek_Start_zero)
  have fc: "FirstCluster ?c1 = FirstCluster c'" by (simp add: FirstCluster_def)
  have wt: "WriteTo ?c1 w = WriteTo_loop ?c1 w 0 (int 0)"
    by (simp add: WriteTo_def Seek_Start_zero fc)
  have ok1: "chain_ok (fs ?c1) nc ?zs" using R(4) by simp
  have "hd ?zs = ?zs ! 0" by (simp add: hd_conv_nth)
  then have cl: "cluster ?c1 = ?zs ! 0" using FirstCluster_hd[of c'] by simp
  have pv: "prev ?c1 = take 0 ?zs" by simp
  have k: "0 < length ?zs" by simp
  from WriteTo_loop_chain[OF ok1 k pv cl, of w 0] obtain m e c2 out where
    run: "WriteTo_loop ?c1 w 0 (int 0) = Some ((m, e), c2, out)"
    and good: "e = None \<longrightarrow> m = 0 + int (length (chain_data (fs ?c1) (drop 0 ?zs)))
                 \<and> out = w @ chain_data (fs ?c1) (drop 0 ?zs)"
    and nf: "faults (Device (fs ?c1)) = [] \<longrightarrow> e = None"
    by blast
  have cd: "chain_data (fs ?c1) (drop 0 ?zs) = B @ replicate (length ?zs * ?CS - length B) 0"
    using R(6) by simp
  have "length B \<le> length ?zs * ?CS"
  proof -
    have "0 < ?CS" using assms(1) by (rule ClusterSize_pos)
    from ceil_div_bound[OF this, of "length B"]
    have "length B \<le> ((length B + ?CS - 1) div ?CS) * ?CS" .
    also have "\<dots> \<le> length ?zs * ?CS" unfolding R(2) by (intro mult_le_mono1) simp
    finally show ?thesis .
  qed
  then have ln: "length (B @ replicate (length ?zs * ?CS - length B) (0::byte)) = length ?zs * ?CS"
    by simp
  have "WriteTo (snd (Seek c' 0 SeekStart)) w = Some ((m, e), c2, out)"
    unfolding s1 wt run ..
  moreover have "e = None \<longrightarrow> m = int (length ?zs * ?CS)
      \<and> out = w @ B @ replicate (length ?zs * ?CS - length B) 0"
    using good unfolding cd ln by simp
  moreover have "faults (Device (fs c')) = [] \<longrightarrow> e = None" using nf by simp
  ultimately have "\<exists>m e c2 out.
           WriteTo (snd (Seek c' 0 SeekStart)) w = Some ((m, e), c2, out)
           \<and> (e = None \<longrightarrow> m = int (length ?zs * ?CS)
                \<and> out = w @ B @ replicate (length ?zs * ?CS - length B) 0)
           \<and> (faults (Device (fs c')) = [] \<longrightarrow> e = None)"
    by blast
  then show ?thesis using R(1,2,3) lk ae by blast
qed

theorem ReadFrom_WriteTo_roundtrip_witness:
  "\<exists>c'. ReadFrom (NewChain (end_fs EOF) 2) example_input = Some ((1500, None), c')
      \<and> length (prev c' @ [cluster c']) = 3
      \<and> (\<exists>c2. WriteTo (snd (Seek c' 0 SeekStart)) []
                = Some ((1536, None), c2, example_input @ replicate 36 0))"
proof -
  let ?c = "NewChain (end_fs EOF) 2"
  from ReadFrom_example obtain res c' where
    run: "ReadFrom ?c example_input = Some ((res, None), c')"
    and nf: "faults (Device (fs c')) = []"
    by blast
  have cs: "ClusterSize (fs ?c) = 512"
    by (simp add: NewChain_def ClusterSize_def end_fs_fields example_bs_fields SectorSize_def)
  have h1: "wf_volume (fs ?c) 1986" by (simp add: NewChain_def wf_volume_end_fs)
  have h2: "prev ?c = []" by (simp add: NewChain_def)
  have h3: "2 \<le> cluster ?c" by (simp add: NewChain_def)
  have h4: "cluster ?c < 1986" by (simp add: NewChain_def word_less_nat_alt)
  have h5: "at_end (fs ?c) (cluster ?c)"
    by (simp add: NewChain_def at_end_def end_fs_entry_2 EOF_masked)
  have h6: "cluster_data (fs ?c) (cluster ?c) = replicate (ClusterSize (fs ?c)) 0"
    unfolding cs by (simp add: NewChain_def cluster_data_end_fs)
  note T = ReadFrom_WriteTo_roundtrip[OF h1 h2 h3 h4 h5 h6 run, of "[]",
      unfolded cs length_example_input]
  have res: "res = 1500" using T by simp
  have len: "length (prev c' @ [cluster c']) = 3" using T by simp
  from T obtain m e c2 out where
    w: "WriteTo (snd (Seek c' 0 SeekStart)) [] = Some ((m, e), c2, out)"
    and good: "e = None \<longrightarrow> m = int (length (prev c' @ [cluster c']) * 512)
        \<and> out = [] @ example_input @ replicate (length (prev c' @ [cluster c']) * 512 - 1500) 0"
    and ok: "faults (Device (fs c')) = [] \<longrightarrow> e = None"
    by blast
  have e: "e = None" using ok nf by simp
  have "m = 1536" "out = example_input @ replicate 36 0" using good e len by simp_all
  then show ?thesis using run res len w e by blast
qed

end
